theory Spec2Isabelle
  imports Main "HOL-Library.Word"
begin

unbundle bit_operations_syntax

section \<open>Bytes, machine words and fill patterns\<close>

text \<open>
  The programs run on 64-bit little-endian Darwin: \<open>size_t\<close> is a 64-bit unsigned word
  and a file is a sequence of bytes. \<open>PAGE_SIZE\<close> comes from \<open><mach/vm_param.h>\<close>;
  on the Intel machine of the README it is 4096.
\<close>

type_synonym byte = "8 word"
type_synonym size_t = "64 word"

definition PAGE_SIZE :: nat where
  "PAGE_SIZE = 4096"

text \<open>The in-memory representation of a \<open>size_t\<close>: eight bytes, least significant first.\<close>

definition to_bytes :: "size_t \<Rightarrow> byte list" where
  "to_bytes w = map (\<lambda>k. ucast (drop_bit (8 * k) w)) [0..<8]"

text \<open>\<open>*(size_t* )p\<close>: the word stored in the eight bytes \<open>bs\<close>.\<close>

definition from_bytes :: "byte list \<Rightarrow> size_t" where
  "from_bytes bs = word_of_int (horner_sum uint (2 ^ 8) bs)"

text \<open>
  Darwin's \<open>memset_pattern8\<close> and \<open>memset_pattern16\<close> fill \<open>len\<close> bytes with copies of
  the pattern, the last copy cut off where \<open>len\<close> is not a multiple of its size.
\<close>

definition memset_pattern :: "byte list \<Rightarrow> nat \<Rightarrow> byte list" where
  "memset_pattern pat len = map (\<lambda>k. pat ! (k mod length pat)) [0..<len]"

definition memset_pattern8 :: "size_t \<Rightarrow> nat \<Rightarrow> byte list" where
  "memset_pattern8 v len = memset_pattern (to_bytes v) len"

text \<open>\<open>struct page_entry { size_t index, version; }\<close> is the pair of its two fields.\<close>

type_synonym page_entry = "size_t \<times> size_t"

definition memset_pattern16 :: "page_entry \<Rightarrow> nat \<Rightarrow> byte list" where
  "memset_pattern16 p len = memset_pattern (to_bytes (fst p) @ to_bytes (snd p)) len"

section \<open>The verifier's view of the file\<close>

text \<open>
  \<open>mmap\<close> maps whole pages: the bytes of the file, then zeroes up to the next page
  boundary. A read that leaves the mapping is a memory fault, \<open>None\<close> here.
\<close>

definition mmap_view :: "byte list \<Rightarrow> byte list" where
  "mmap_view f = f @ replicate ((PAGE_SIZE - length f mod PAGE_SIZE) mod PAGE_SIZE) 0"

definition peek :: "byte list \<Rightarrow> nat \<Rightarrow> nat \<Rightarrow> byte list option" where
  "peek base a n = (if a + n \<le> length base then Some (take n (drop a base)) else None)"

text \<open>How a process ends: \<open>main\<close> returns a status, or a memory fault kills it.\<close>

datatype process_end = Returned int | Crashed

text \<open>
  What the verifier is started on: no file argument, a path that \<open>open\<close> or \<open>fstat\<close>
  refuses, or a file with its bytes.
\<close>

datatype invocation = NoArgument | OpenError | FstatError | Opened "byte list"

section \<open>The multi-slot verifier (verify.cpp)\<close>

record header_entry =
  offset :: size_t
  index :: size_t
  version :: size_t
  marker :: size_t

text \<open>\<open>header_entries[i]\<close>: four words at byte \<open>i * sizeof(header_entry)\<close> of the mapping.\<close>

definition read_header_entry :: "byte list \<Rightarrow> nat \<Rightarrow> header_entry option" where
  "read_header_entry base i =
     (case peek base (i * 32) 32 of
        None \<Rightarrow> None
      | Some bs \<Rightarrow> Some \<lparr>offset = from_bytes (take 8 bs),
                         index = from_bytes (take 8 (drop 8 bs)),
                         version = from_bytes (take 8 (drop 16 bs)),
                         marker = from_bytes (take 8 (drop 24 bs))\<rparr>)"

text \<open>
  What one iteration of the loop over the sixteen header entries finds. \<open>Unwritten\<close> is
  the \<open>continue\<close> of line 51, \<open>HardCorrupt\<close> that of line 62, \<open>InFlight\<close> the branch
  of line 75 and \<open>Mismatch\<close> the one of line 77.
\<close>

datatype slot_class = Unwritten | HardCorrupt | Consistent | InFlight | Mismatch

text \<open>Line 54: \<open>header->offset + header->index * PAGE_SIZE\<close>, in \<open>size_t\<close>.\<close>

definition byte_offset_of :: "header_entry \<Rightarrow> size_t" where
  "byte_offset_of header = offset header + index header * of_nat PAGE_SIZE"

definition check_slot :: "byte list \<Rightarrow> size_t \<Rightarrow> nat \<Rightarrow> slot_class option" where
  "check_slot base file_size i =
     (case read_header_entry base i of
        None \<Rightarrow> None
      | Some header \<Rightarrow>
          if marker header \<noteq> - 1 then Some Unwritten
          else
            let byte_offset = byte_offset_of header in
            if byte_offset > file_size - of_nat PAGE_SIZE then Some HardCorrupt
            else
              (case peek base (unat byte_offset) PAGE_SIZE of
                 None \<Rightarrow> None
               | Some page \<Rightarrow>
                   if page \<noteq> memset_pattern16 (index header, version header) PAGE_SIZE then
                     if page = memset_pattern16 (index header, version header + 1) PAGE_SIZE
                     then Some InFlight
                     else Some Mismatch
                   else Some Consistent))"

text \<open>The flag \<open>success\<close> after the slot has been looked at.\<close>

definition slot_success :: "slot_class \<Rightarrow> bool \<Rightarrow> bool" where
  "slot_success c success = (if c = HardCorrupt \<or> c = Mismatch then False else success)"

fun verify_slots :: "byte list \<Rightarrow> size_t \<Rightarrow> nat list \<Rightarrow> bool \<Rightarrow> bool option" where
  "verify_slots base file_size [] success = Some success"
| "verify_slots base file_size (i # rest) success =
     (case check_slot base file_size i of
        None \<Rightarrow> None
      | Some c \<Rightarrow> verify_slots base file_size rest (slot_success c success))"

text \<open>The verdict on a mapped file: the value of \<open>success\<close> after the loop.\<close>

definition verdict :: "byte list \<Rightarrow> bool option" where
  "verdict f = verify_slots (mmap_view f) (of_nat (length f)) [0..<16] True"

text \<open>\<open>main\<close> of verify.cpp. \<open>mmap\<close> refuses a length of zero; \<open>return success\<close> turns
  the flag into the exit status.\<close>

text \<open>The bytes of the file where the slot's data page is expected.\<close>

definition data_page :: "byte list \<Rightarrow> header_entry \<Rightarrow> byte list" where
  "data_page f h = take PAGE_SIZE (drop (unat (byte_offset_of h)) f)"

text \<open>
  The file of the specification's multi-slot scenario: the header entry of slot 3 shows
  version 2 with the sentinel, and its data page already holds version 3.
\<close>

definition interrupted_file :: "byte list" where
  "interrupted_file =
     replicate 96 0 @ to_bytes 4096 @ to_bytes 3 @ to_bytes 2 @ to_bytes (- 1)
     @ replicate 3968 0 @ replicate 12288 0 @ memset_pattern16 (3, 3) PAGE_SIZE"

definition verify_main :: "invocation \<Rightarrow> process_end" where
  "verify_main how =
     (case how of
        NoArgument \<Rightarrow> Returned 1
      | OpenError \<Rightarrow> Returned 1
      | FstatError \<Rightarrow> Returned 1
      | Opened f \<Rightarrow>
          if f = [] then Returned 1
          else (case verdict f of
                  None \<Rightarrow> Crashed
                | Some success \<Rightarrow> Returned (if success then 1 else 0)))"

section \<open>The single-header verifier\<close>

text \<open>
  What the comparison of page 0 with the pattern of the actual file size finds:
  the page matches, or the size it claims (its first word) is larger than the file
  (line 50), smaller than a page (line 53), or anything else (line 56).
\<close>

datatype header_class = HeaderMatches | HeaderAhead | HeaderEmpty | HeaderBehind

text \<open>Lines 42 to 59. \<open>HeaderAhead\<close> and \<open>HeaderEmpty\<close> are the two \<open>return 1\<close>.\<close>

definition check_header :: "byte list \<Rightarrow> size_t \<Rightarrow> header_class option" where
  "check_header base file_size =
     (case peek base 0 8 of
        None \<Rightarrow> None
      | Some bs \<Rightarrow>
          let file_size_from_header = from_bytes bs in
          (case peek base 0 PAGE_SIZE of
             None \<Rightarrow> None
           | Some page \<Rightarrow>
               if page \<noteq> memset_pattern8 file_size PAGE_SIZE then
                 if file_size_from_header > file_size then Some HeaderAhead
                 else if file_size_from_header < of_nat PAGE_SIZE then Some HeaderEmpty
                 else Some HeaderBehind
               else Some HeaderMatches))"

text \<open>
  The loop of lines 62 to 71, \<open>i\<close> counting down in \<open>size_t\<close> from
  \<open>page_count_from_header - 1\<close> while it is positive.
\<close>

function verify_body :: "byte list \<Rightarrow> size_t \<Rightarrow> size_t \<Rightarrow> bool \<Rightarrow> bool option" where
  "verify_body base page_count_from_header i success =
     (if i > 0 then
        let page_offset = page_count_from_header - i;
            byte_offset = page_offset * of_nat PAGE_SIZE
        in (case peek base (unat byte_offset) PAGE_SIZE of
              None \<Rightarrow> None
            | Some page \<Rightarrow>
                verify_body base page_count_from_header (i - 1)
                  (if page \<noteq> memset_pattern8 i PAGE_SIZE then False else success))
      else Some success)"
  by pat_completeness auto
termination
  by (relation "measure (\<lambda>(base, pc, i, success). unat i)")
     (auto simp: unat_minus_one word_gt_0 unat_gt_0)

declare verify_body.simps [simp del]

text \<open>Line 42: the size the header claims, \<open>*(size_t* )base\<close>.\<close>

definition claimed_size :: "byte list \<Rightarrow> size_t" where
  "claimed_size f = from_bytes (take 8 (mmap_view f))"

text \<open>\<open>main\<close> of the single-header verifier.\<close>

definition verify_single_main :: "invocation \<Rightarrow> process_end" where
  "verify_single_main how =
     (case how of
        NoArgument \<Rightarrow> Returned 1
      | OpenError \<Rightarrow> Returned 1
      | FstatError \<Rightarrow> Returned 1
      | Opened f \<Rightarrow>
          if f = [] then Returned 1
          else
            let base = mmap_view f;
                file_size = of_nat (length f);
                page_count_from_header = claimed_size f div of_nat PAGE_SIZE
            in (case check_header base file_size of
                  None \<Rightarrow> Crashed
                | Some c \<Rightarrow>
                    if c = HeaderAhead \<or> c = HeaderEmpty then Returned 1
                    else (case verify_body base page_count_from_header
                                 (page_count_from_header - 1) True of
                            None \<Rightarrow> Crashed
                          | Some success \<Rightarrow> Returned (if success then 1 else 0))))"

text \<open>
  Files for the single-header verifier: a page that claims 4096 bytes in front of one more
  page of zeroes; a one-page file whose header claims its own size; a two-page file with
  the right header and a body page of zeroes.
\<close>

definition lagging_header_file :: "byte list" where
  "lagging_header_file = memset_pattern8 4096 PAGE_SIZE @ replicate 4096 0"

definition clean_single_file :: "byte list" where
  "clean_single_file = memset_pattern8 4096 PAGE_SIZE"

definition torn_body_file :: "byte list" where
  "torn_body_file = memset_pattern8 8192 PAGE_SIZE @ replicate 4096 0"

text \<open>A 32-byte file for the multi-slot verifier: one marked entry whose offset is \<open>-1\<close>.\<close>

definition dangling_header_file :: "byte list" where
  "dangling_header_file = to_bytes (- 1) @ replicate 16 0 @ to_bytes (- 1)"



section \<open>The writer and its barriers\<close>

text \<open>
  The simulators talk to the kernel through a handful of calls. The trace of a run is
  the list of the calls that succeeded, in order; \<open>Memcpy\<close> is the store into the
  shared mapping, which is no system call but changes the file all the same.
\<close>

datatype call =
    OpenExcl | OpenDir | DirFd | FsyncParentDir | FsyncFile | FullFsyncFile
  | Msync nat | Ftruncate nat | Mmap nat | Munmap nat
  | Pwrite nat "byte list" | Memcpy nat "byte list"

text \<open>
  A kernel decides, from the calls made so far, whether the next call succeeds. What
  reaches the disk before a power loss is not modelled: \<open>content\<close> below is the file as
  the kernel sees it, which is what is on disk after a run that was not interrupted.
\<close>

type_synonym kernel = "call list \<Rightarrow> call \<Rightarrow> bool"

text \<open>\<open>ftruncate\<close> to \<open>n\<close> bytes: cut, or pad with zeroes.\<close>

definition resize :: "nat \<Rightarrow> byte list \<Rightarrow> byte list" where
  "resize n c = take n c @ replicate (n - length c) 0"

text \<open>\<open>pwrite\<close> of \<open>d\<close> at \<open>off\<close>: overwrite, growing the file (zero-filled) if needed.\<close>

definition store :: "nat \<Rightarrow> byte list \<Rightarrow> byte list \<Rightarrow> byte list" where
  "store off d c =
     (let padded = c @ replicate (off - length c) 0
      in take off padded @ d @ drop (off + length d) padded)"

fun apply_call :: "call \<Rightarrow> byte list \<Rightarrow> byte list" where
  "apply_call (Ftruncate n) c = resize n c"
| "apply_call (Pwrite off d) c = store off d c"
| "apply_call (Memcpy off d) c = store off d c"
| "apply_call _ c = c"

datatype write_kind = MMapWrite | PWriteWrite

datatype sync_strategy = NoopSync | MSync | FSync | FSyncParent | FullFSync

text \<open>
  \<open>WriteStrategy\<close> with its two subclasses. \<open>m_buffer\<close> is \<open>None\<close> for a null pointer
  and \<open>Some n\<close> for a pointer to \<open>n\<close> mapped bytes; \<open>strategy\<close> is the dynamic class.
\<close>

record writer =
  strategy :: write_kind
  m_length :: nat
  m_buffer :: "nat option"
  content :: "byte list"
  calls :: "call list"

text \<open>
  \<open>SystemError\<close> is the \<open>std::system_error\<close> thrown by \<open>ensure\<close>, \<open>AssertionFailed\<close>
  the \<open>assert\<close> of \<open>MMapWriteStrategy::write\<close>, \<open>MemoryFault\<close> a store outside the
  mapping. An operation ends with the writer, or with an error and the writer as the
  error left it.
\<close>

datatype error = SystemError | AssertionFailed | MemoryFault

type_synonym outcome = "(error \<times> writer) + writer"

definition and_then :: "outcome \<Rightarrow> (writer \<Rightarrow> outcome) \<Rightarrow> outcome" where
  "and_then r f = (case r of Inl e \<Rightarrow> Inl e | Inr w \<Rightarrow> f w)"

fun iterate :: "('a \<Rightarrow> writer \<Rightarrow> outcome) \<Rightarrow> 'a list \<Rightarrow> writer \<Rightarrow> outcome" where
  "iterate body [] w = Inr w"
| "iterate body (x # xs) w = and_then (body x w) (iterate body xs)"

text \<open>\<open>ensure(call(...) == 0)\<close>: the call, its effect on the file, or the exception.\<close>

definition sys :: "kernel \<Rightarrow> call \<Rightarrow> writer \<Rightarrow> outcome" where
  "sys k c w =
     (if k (calls w) c
      then Inr (w\<lparr>content := apply_call c (content w), calls := calls w @ [c]\<rparr>)
      else Inl (SystemError, w))"

text \<open>
  The constructor: exclusive \<open>open\<close>, \<open>opendir\<close>, \<open>dirfd\<close>, \<open>fsync\<close> of the directory,
  each under \<open>ensure\<close>. (The variant without \<open>FSyncParentStrategy\<close> also closes the
  directory handle, which changes nothing in the file.)
\<close>

definition create :: "kernel \<Rightarrow> write_kind \<Rightarrow> outcome" where
  "create k kind =
     and_then (and_then (and_then
       (sys k OpenExcl \<lparr>strategy = kind, m_length = 0, m_buffer = None, content = [], calls = []\<rparr>)
       (sys k OpenDir)) (sys k DirFd)) (sys k FsyncParentDir)"

text \<open>The virtual \<open>buffer()\<close>: null unless the writer is an \<open>MMapWriteStrategy\<close>.\<close>

definition buffer :: "writer \<Rightarrow> nat option" where
  "buffer w = (case strategy w of PWriteWrite \<Rightarrow> None | MMapWrite \<Rightarrow> m_buffer w)"

text \<open>\<open>WriteStrategy::extend\<close>.\<close>

definition base_extend :: "kernel \<Rightarrow> nat \<Rightarrow> writer \<Rightarrow> outcome" where
  "base_extend k len w = and_then (sys k (Ftruncate len) w) (\<lambda>w. Inr (w\<lparr>m_length := len\<rparr>))"

text \<open>
  \<open>MMapWriteStrategy::remap\<close>. The result of \<open>munmap\<close> is not looked at; after it the
  pointer is kept but nothing is mapped behind it. A failed \<open>mmap\<close> resets the pointer
  and throws.
\<close>

definition remap :: "kernel \<Rightarrow> nat \<Rightarrow> nat \<Rightarrow> writer \<Rightarrow> outcome" where
  "remap k old_length new_length w =
     (let w1 = (if m_buffer w \<noteq> None \<and> old_length \<noteq> 0
                then w\<lparr>m_buffer := Some 0, calls := calls w @ [Munmap old_length]\<rparr>
                else w)
      in if new_length = 0 then Inr w1
         else if k (calls w1) (Mmap new_length)
         then Inr (w1\<lparr>m_buffer := Some new_length, calls := calls w1 @ [Mmap new_length]\<rparr>)
         else Inl (SystemError, w1\<lparr>m_buffer := None\<rparr>))"

definition extend :: "kernel \<Rightarrow> nat \<Rightarrow> writer \<Rightarrow> outcome" where
  "extend k len w =
     (case strategy w of
        PWriteWrite \<Rightarrow> base_extend k len w
      | MMapWrite \<Rightarrow>
          (let old_length = m_length w
           in and_then (base_extend k len w) (\<lambda>w. remap k old_length (m_length w) w)))"

text \<open>\<open>write\<close> (here \<open>write_bytes\<close>): \<open>pwrite\<close> under \<open>ensure\<close>, or the assertion and the \<open>memcpy\<close>.\<close>

definition write_bytes :: "kernel \<Rightarrow> nat \<Rightarrow> byte list \<Rightarrow> writer \<Rightarrow> outcome" where
  "write_bytes k off d w =
     (case strategy w of
        PWriteWrite \<Rightarrow> sys k (Pwrite off d) w
      | MMapWrite \<Rightarrow>
          if \<not> off + length d \<le> m_length w then Inl (AssertionFailed, w)
          else (case m_buffer w of
                  None \<Rightarrow> Inl (MemoryFault, w)
                | Some n \<Rightarrow>
                    if off + length d \<le> n
                    then Inr (w\<lparr>content := apply_call (Memcpy off d) (content w),
                                calls := calls w @ [Memcpy off d]\<rparr>)
                    else Inl (MemoryFault, w)))"

text \<open>The five \<open>SyncStrategy::sync\<close> overrides.\<close>

definition sync_one :: "kernel \<Rightarrow> sync_strategy \<Rightarrow> writer \<Rightarrow> outcome" where
  "sync_one k st w =
     (case st of
        NoopSync \<Rightarrow> Inr w
      | MSync \<Rightarrow>
          (case buffer w of
             None \<Rightarrow> Inr w
           | Some n \<Rightarrow> if m_length w = 0 then Inr w else sys k (Msync (m_length w)) w)
      | FSync \<Rightarrow> sys k FsyncFile w
      | FSyncParent \<Rightarrow> sys k FsyncParentDir w
      | FullFSync \<Rightarrow> sys k FullFsyncFile w)"

text \<open>\<open>WriteStrategy::sync\<close>: each strategy of the list in turn.\<close>

definition sync :: "kernel \<Rightarrow> sync_strategy list \<Rightarrow> writer \<Rightarrow> outcome" where
  "sync k strategies w = iterate (sync_one k) strategies w"

text \<open>The calls a barrier list is expected to make on a writer, member by member.\<close>

definition barrier_call :: "writer \<Rightarrow> sync_strategy \<Rightarrow> call list" where
  "barrier_call w st =
     (case st of
        NoopSync \<Rightarrow> []
      | MSync \<Rightarrow> if buffer w = None \<or> m_length w = 0 then [] else [Msync (m_length w)]
      | FSync \<Rightarrow> [FsyncFile]
      | FSyncParent \<Rightarrow> [FsyncParentDir]
      | FullFSync \<Rightarrow> [FullFsyncFile])"

section \<open>The transaction simulators\<close>

text \<open>
  The configuration (write path and the two barrier lists) is taken as already parsed
  from the command line. The multi-slot simulator is the \<open>main\<close> with the loop over
  sixteen slots and eight versions; the single-header simulator is the \<open>main\<close> of the
  \<open>WriteStrategy\<close> variant with separate write and extend barrier lists. The two
  older single-header variants (the \<open>Writer\<close> classes and the enum-based main.cpp)
  make the same writes at the same offsets with one barrier list and are not modelled
  apart. The pacing sleeps have no effect on the file and are left out.

  The multi-slot policy: one of the 128 rewrites of growth step \<open>i\<close>. The
  sizes stay far below \<open>2 ^ 64\<close> for \<open>i < 1024\<close>, so they are computed in \<open>nat\<close>.
\<close>

definition header_bytes :: "nat \<Rightarrow> nat \<Rightarrow> nat \<Rightarrow> byte list" where
  "header_bytes base_offset idx ver =
     to_bytes (of_nat base_offset) @ to_bytes (of_nat idx) @ to_bytes (of_nat ver)
     @ to_bytes (- 1)"

definition slot_rewrite ::
    "kernel \<Rightarrow> sync_strategy list \<Rightarrow> nat \<Rightarrow> nat \<Rightarrow> writer \<Rightarrow> outcome" where
  "slot_rewrite k write_sync_strategies i j w =
     (let page_count = 16 * (i + 1) + 1;
          base_offset = (page_count - 16) * PAGE_SIZE;
          idx = j mod 16;
          ver = j div 16;
          off = base_offset + idx * PAGE_SIZE
      in and_then (and_then (and_then
           (write_bytes k off (memset_pattern16 (of_nat idx, of_nat ver) PAGE_SIZE) w)
           (sync k write_sync_strategies))
           (write_bytes k (idx * 32) (header_bytes base_offset idx ver)))
           (sync k write_sync_strategies))"

definition growth_step ::
    "kernel \<Rightarrow> sync_strategy list \<Rightarrow> sync_strategy list \<Rightarrow> nat \<Rightarrow> writer \<Rightarrow> outcome" where
  "growth_step k write_sync_strategies extend_sync_strategies i w =
     (let page_count = 16 * (i + 1) + 1;
          file_size = page_count * PAGE_SIZE
      in and_then (and_then
           (extend k file_size w)
           (sync k extend_sync_strategies))
           (iterate (slot_rewrite k write_sync_strategies i) [0..<16 * 8]))"

text \<open>
  \<open>main\<close> of the multi-slot simulator, stopped after \<open>n\<close> growth steps; the program
  itself runs \<open>multi_slot_main k kind ws es 1024\<close>.
\<close>

definition multi_slot_main ::
    "kernel \<Rightarrow> write_kind \<Rightarrow> sync_strategy list \<Rightarrow> sync_strategy list \<Rightarrow> nat \<Rightarrow> outcome" where
  "multi_slot_main k kind write_sync_strategies extend_sync_strategies n =
     and_then (create k kind)
       (iterate (growth_step k write_sync_strategies extend_sync_strategies) [0..<n])"

text \<open>The single-header policy: transaction \<open>i\<close>.\<close>

definition body_write :: "kernel \<Rightarrow> nat \<Rightarrow> nat \<Rightarrow> writer \<Rightarrow> outcome" where
  "body_write k page_count j w =
     write_bytes k ((page_count - j) * PAGE_SIZE) (memset_pattern8 (of_nat j) PAGE_SIZE) w"

definition transaction ::
    "kernel \<Rightarrow> sync_strategy list \<Rightarrow> sync_strategy list \<Rightarrow> nat \<Rightarrow> writer \<Rightarrow> outcome" where
  "transaction k write_sync_strategies extend_sync_strategies i w =
     (let page_count = 10 + i * 10;
          file_size = page_count * PAGE_SIZE
      in and_then (and_then (and_then (and_then (and_then
           (extend k file_size w)
           (sync k extend_sync_strategies))
           (iterate (body_write k page_count) [1..<page_count]))
           (sync k write_sync_strategies))
           (write_bytes k 0 (memset_pattern8 (of_nat file_size) PAGE_SIZE)))
           (sync k write_sync_strategies))"

definition single_header_main ::
    "kernel \<Rightarrow> write_kind \<Rightarrow> sync_strategy list \<Rightarrow> sync_strategy list \<Rightarrow> nat \<Rightarrow> outcome" where
  "single_header_main k kind write_sync_strategies extend_sync_strategies n =
     and_then (create k kind)
       (iterate (transaction k write_sync_strategies extend_sync_strategies) [0..<n])"

text \<open>Two writers after a first extension to one page, one of each class.\<close>

definition mapped_writer :: writer where
  "mapped_writer = \<lparr>strategy = MMapWrite, m_length = 4096, m_buffer = Some 4096,
                     content = replicate 4096 0, calls = []\<rparr>"

definition positional_writer :: writer where
  "positional_writer = \<lparr>strategy = PWriteWrite, m_length = 4096, m_buffer = None,
                         content = replicate 4096 0, calls = []\<rparr>"

section \<open>Reading a run from its trace\<close>

text \<open>
  The logical length of the file after a list of calls, starting from \<open>len\<close>: the
  argument of the last \<open>ftruncate\<close>.
\<close>

fun length_after :: "nat \<Rightarrow> call list \<Rightarrow> nat" where
  "length_after len [] = len"
| "length_after len (Ftruncate n # cs) = length_after n cs"
| "length_after len (c # cs) = length_after len cs"

text \<open>No \<open>ftruncate\<close> of the trace asks for less than the length before it.\<close>

fun never_truncates :: "nat \<Rightarrow> call list \<Rightarrow> bool" where
  "never_truncates len [] = True"
| "never_truncates len (Ftruncate n # cs) = (len \<le> n \<and> never_truncates n cs)"
| "never_truncates len (c # cs) = never_truncates len cs"

text \<open>Every \<open>pwrite\<close> and every store into the mapping ends inside the length of the
  most recent \<open>ftruncate\<close>.\<close>

fun writes_in_bounds :: "nat \<Rightarrow> call list \<Rightarrow> bool" where
  "writes_in_bounds len [] = True"
| "writes_in_bounds len (Ftruncate n # cs) = writes_in_bounds n cs"
| "writes_in_bounds len (Pwrite off d # cs) = (off + length d \<le> len \<and> writes_in_bounds len cs)"
| "writes_in_bounds len (Memcpy off d # cs) = (off + length d \<le> len \<and> writes_in_bounds len cs)"
| "writes_in_bounds len (c # cs) = writes_in_bounds len cs"

text \<open>The writer a run ends with, and the error it ends with, if any.\<close>

definition final :: "outcome \<Rightarrow> writer" where
  "final r = (case r of Inl (e, w) \<Rightarrow> w | Inr w \<Rightarrow> w)"

definition failure :: "outcome \<Rightarrow> error option" where
  "failure r = (case r of Inl (e, w) \<Rightarrow> Some e | Inr w \<Rightarrow> None)"

text \<open>The call by which a writer of the given class writes, and the calls of its
  \<open>extend\<close>.\<close>

definition write_call :: "writer \<Rightarrow> nat \<Rightarrow> byte list \<Rightarrow> call" where
  "write_call w off d = (case strategy w of PWriteWrite \<Rightarrow> Pwrite off d | MMapWrite \<Rightarrow> Memcpy off d)"

definition extend_calls :: "writer \<Rightarrow> nat \<Rightarrow> call list" where
  "extend_calls w len =
     Ftruncate len #
     (case strategy w of
        PWriteWrite \<Rightarrow> []
      | MMapWrite \<Rightarrow>
          (if m_buffer w \<noteq> None \<and> m_length w \<noteq> 0 then [Munmap (m_length w)] else [])
          @ (if len = 0 then [] else [Mmap len]))"

definition barrier_calls :: "writer \<Rightarrow> sync_strategy list \<Rightarrow> call list" where
  "barrier_calls w strategies = concat (map (barrier_call w) strategies)"

text \<open>
  What holds of the writer between two operations of a run: its trace never truncated and
  wrote in bounds, \<open>m_length\<close> is the length of the file, and a non-empty mapped file is
  mapped in full.
\<close>

definition trace_ok :: "writer \<Rightarrow> bool" where
  "trace_ok w \<longleftrightarrow>
     length_after 0 (calls w) = m_length w
     \<and> never_truncates 0 (calls w)
     \<and> writes_in_bounds 0 (calls w)"

definition intact :: "writer \<Rightarrow> bool" where
  "intact w \<longleftrightarrow>
     trace_ok w
     \<and> length (content w) = m_length w
     \<and> (strategy w = MMapWrite \<longrightarrow> m_length w \<noteq> 0 \<longrightarrow> m_buffer w = Some (m_length w))"

text \<open>
  \<open>ends k P r\<close>: the operation returned an intact writer with \<open>P\<close>, or it was stopped
  by a call that the kernel \<open>k\<close> refused, in which case the trace is still good.
\<close>

definition ends :: "kernel \<Rightarrow> (writer \<Rightarrow> bool) \<Rightarrow> outcome \<Rightarrow> bool" where
  "ends k P r =
     (case r of
        Inr w \<Rightarrow> intact w \<and> P w
      | Inl (e, w) \<Rightarrow> e = SystemError \<and> trace_ok w \<and> \<not> (\<forall>c. k (calls w) c))"

text \<open>Two writers with the same class, mapping and length.\<close>

definition same_handle :: "writer \<Rightarrow> writer \<Rightarrow> bool" where
  "same_handle w w' \<longleftrightarrow>
     strategy w' = strategy w \<and> m_buffer w' = m_buffer w \<and> m_length w' = m_length w"

text \<open>
  The multi-slot layout: header entry \<open>idx\<close> holds \<open>{base_offset, idx, ver, sentinel}\<close>
  and its data page is the tiled \<open>{idx, ver}\<close>. After \<open>n\<close> growth steps the file has
  \<open>16 * n + 1\<close> pages and all sixteen slots of the last step are at version 7.
\<close>

definition slot_ok :: "byte list \<Rightarrow> nat \<Rightarrow> nat \<Rightarrow> nat \<Rightarrow> bool" where
  "slot_ok c base_offset idx ver \<longleftrightarrow>
     take 32 (drop (idx * 32) c) = header_bytes base_offset idx ver
     \<and> take PAGE_SIZE (drop (base_offset + idx * PAGE_SIZE) c)
         = memset_pattern16 (of_nat idx, of_nat ver) PAGE_SIZE"

definition multi_file_size :: "nat \<Rightarrow> nat" where
  "multi_file_size n = (if n = 0 then 0 else (16 * n + 1) * PAGE_SIZE)"

definition multi_done :: "nat \<Rightarrow> writer \<Rightarrow> bool" where
  "multi_done n w \<longleftrightarrow>
     m_length w = multi_file_size n
     \<and> (0 < n \<longrightarrow> (\<forall>idx<16. slot_ok (content w) ((16 * (n - 1) + 1) * PAGE_SIZE) idx 7))"

text \<open>
  The single-header layout with \<open>pc\<close> pages: page 0 is the tiled file size in bytes,
  the page at \<open>(pc - j) * PAGE_SIZE\<close> the tiled \<open>j\<close>. \<open>body_content\<close> and
  \<open>body_calls\<close> are the file and the trace of the body writes.
\<close>

definition body_content :: "nat \<Rightarrow> byte list \<Rightarrow> nat list \<Rightarrow> byte list" where
  "body_content page_count c js =
     foldl (\<lambda>c j. store ((page_count - j) * PAGE_SIZE) (memset_pattern8 (of_nat j) PAGE_SIZE) c) c js"

definition body_calls :: "writer \<Rightarrow> nat \<Rightarrow> nat list \<Rightarrow> call list" where
  "body_calls w page_count js =
     map (\<lambda>j. write_call w ((page_count - j) * PAGE_SIZE) (memset_pattern8 (of_nat j) PAGE_SIZE)) js"

definition single_ok :: "byte list \<Rightarrow> nat \<Rightarrow> bool" where
  "single_ok c pc \<longleftrightarrow>
     length c = pc * PAGE_SIZE
     \<and> take PAGE_SIZE c = memset_pattern8 (of_nat (pc * PAGE_SIZE)) PAGE_SIZE
     \<and> (\<forall>j. 1 \<le> j \<and> j < pc \<longrightarrow>
           take PAGE_SIZE (drop ((pc - j) * PAGE_SIZE) c) = memset_pattern8 (of_nat j) PAGE_SIZE)"

definition single_file_size :: "nat \<Rightarrow> nat" where
  "single_file_size n = (if n = 0 then 0 else (10 + (n - 1) * 10) * PAGE_SIZE)"

definition single_done :: "nat \<Rightarrow> writer \<Rightarrow> bool" where
  "single_done n w \<longleftrightarrow>
     m_length w = single_file_size n
     \<and> (0 < n \<longrightarrow> single_ok (content w) (10 + (n - 1) * 10))"

text \<open>The kernel that refuses nothing: a run under it is a run to completion.\<close>

definition willing :: kernel where
  "willing h c = True"

section \<open>Properties of the multi-slot verifier\<close>

lemma length_to_bytes [simp]: "length (to_bytes w) = 8"
  by (simp add: to_bytes_def)

lemma from_bytes_to_bytes [simp]: "from_bytes (to_bytes w) = w"
proof (rule bit_word_eqI)
  fix n assume n: "n < LENGTH(64)"
  have "bit (horner_sum uint (2 ^ LENGTH(8)) (to_bytes w)) n = bit w n"
    unfolding bit_horner_sum_uint_exp_iff using n
    by (simp add: to_bytes_def bit_ucast_iff bit_drop_bit_eq del: upt_Suc)
       (simp add: div_less_iff_less_mult)
  then show "bit (from_bytes (to_bytes w)) n = bit w n"
    using n by (simp add: from_bytes_def bit_word_of_int_iff)
qed



lemma round_up_page:
  fixes n P :: nat
  assumes "0 < n" "0 < P"
  shows "P \<le> n + (P - n mod P) mod P"
proof (cases "n mod P = 0")
  case True
  then have "P dvd n" by (simp add: dvd_eq_mod_eq_0)
  then have "P \<le> n" using assms(1) by (rule dvd_imp_le)
  then show ?thesis by simp
next
  case False
  then have "(P - n mod P) mod P = P - n mod P"
    using assms(2) by simp
  moreover have "n mod P \<le> n" by simp
  moreover have "n mod P < P" using assms(2) by simp
  ultimately show ?thesis by linarith
qed

lemma mmap_view_page:
  "f \<noteq> [] \<Longrightarrow> PAGE_SIZE \<le> length (mmap_view f)"
  using round_up_page [of "length f" PAGE_SIZE]
  by (simp add: mmap_view_def PAGE_SIZE_def)

lemma read_header_entry_mapped:
  assumes "f \<noteq> []" "i < 16"
  shows "\<exists>h. read_header_entry (mmap_view f) i = Some h"
proof -
  have "i * 32 + 32 \<le> PAGE_SIZE"
    using assms(2) by (simp add: PAGE_SIZE_def)
  then have "i * 32 + 32 \<le> length (mmap_view f)"
    using mmap_view_page [OF assms(1)] by linarith
  then show ?thesis
    by (simp add: read_header_entry_def peek_def)
qed

lemma from_bytes_zeros [simp]: "from_bytes (replicate n 0) = 0"
proof -
  have "horner_sum uint (2 ^ 8) (replicate n (0::byte)) = 0"
    by (induction n) simp_all
  then show ?thesis by (simp add: from_bytes_def)
qed

lemma verify_slots_all_unwritten:
  "(\<And>i. i \<in> set slots \<Longrightarrow> check_slot base fs i = Some Unwritten)
   \<Longrightarrow> verify_slots base fs slots s = Some s"
  by (induction slots arbitrary: s) (simp_all add: slot_success_def)

text \<open>
  C7. Each of the sixteen header entries of a mapped file is readable, and an entry whose
  marker is not the all-bits-set sentinel is classified unwritten whatever the rest of
  the file holds (no data page is read or compared); the slot leaves the flag
  \<open>success\<close> as it was, and a file with no marked entry at all is verified
  successfully.
\<close>

theorem unmarked_slot_is_skipped:
  assumes "f \<noteq> []" and "i < 16"
  shows "(\<exists>h. read_header_entry (mmap_view f) i = Some h
          \<and> (marker h \<noteq> - 1 \<longrightarrow>
                check_slot (mmap_view f) file_size i = Some Unwritten
              \<and> slot_success Unwritten success = success
              \<and> verify_slots (mmap_view f) file_size (i # rest) success
                  = verify_slots (mmap_view f) file_size rest success))
       \<and> ((\<forall>j<16. \<forall>h. read_header_entry (mmap_view f) j = Some h \<longrightarrow> marker h \<noteq> - 1)
            \<longrightarrow> verdict f = Some True)"
proof (intro conjI impI)
  obtain h where h: "read_header_entry (mmap_view f) i = Some h"
    using read_header_entry_mapped [OF assms] by blast
  then show "\<exists>h. read_header_entry (mmap_view f) i = Some h
       \<and> (marker h \<noteq> - 1 \<longrightarrow>
            check_slot (mmap_view f) file_size i = Some Unwritten
          \<and> slot_success Unwritten success = success
          \<and> verify_slots (mmap_view f) file_size (i # rest) success
              = verify_slots (mmap_view f) file_size rest success)"
    by (simp add: check_slot_def slot_success_def)
next
  assume none: "\<forall>j<16. \<forall>h. read_header_entry (mmap_view f) j = Some h \<longrightarrow> marker h \<noteq> - 1"
  have "check_slot (mmap_view f) (of_nat (length f)) j = Some Unwritten"
    if "j \<in> set [0..<16]" for j
  proof -
    from that have j: "j < 16" by simp
    then obtain h where h: "read_header_entry (mmap_view f) j = Some h"
      using read_header_entry_mapped [OF assms(1)] by blast
    with none j have "marker h \<noteq> - 1" by blast
    with h show ?thesis by (simp add: check_slot_def)
  qed
  then show "verdict f = Some True"
    unfolding verdict_def by (rule verify_slots_all_unwritten)
qed

lemma header_of_zeros:
  "j < 16 \<Longrightarrow> read_header_entry (mmap_view (replicate 32 0)) j
     = Some \<lparr>offset = 0, index = 0, version = 0, marker = 0\<rparr>"
  by (simp add: read_header_entry_def peek_def mmap_view_def PAGE_SIZE_def flip: replicate_add)

theorem unmarked_slot_is_skipped_witness:
  "replicate 32 (0::byte) \<noteq> [] \<and> (0::nat) < 16
   \<and> read_header_entry (mmap_view (replicate 32 0)) 15
        = Some \<lparr>offset = 0, index = 0, version = 0, marker = 0\<rparr>
   \<and> check_slot (mmap_view (replicate 32 0)) 32 0 = Some Unwritten
   \<and> verify_slots (mmap_view (replicate 32 0)) 32 [0] True = Some True
   \<and> verdict (replicate 32 0) = Some True"
  using unmarked_slot_is_skipped [of "replicate 32 0" 0 32 True "[]"]
  by (simp add: header_of_zeros)

lemma unat_of_nat_size: "n < 2 ^ 64 \<Longrightarrow> unat (of_nat n :: size_t) = n"
  by (simp add: unat_of_nat)

lemma unat_PAGE_SIZE: "unat (of_nat PAGE_SIZE :: size_t) = PAGE_SIZE"
  by (simp add: PAGE_SIZE_def)



lemma header_past_small_file:
  "read_header_entry (mmap_view (to_bytes (- 1) @ replicate 16 0 @ to_bytes (- 1))) 0
     = Some \<lparr>offset = - 1, index = 0, version = 0, marker = - 1\<rparr>"
  by (simp add: read_header_entry_def peek_def mmap_view_def PAGE_SIZE_def)



lemma in_bounds_passes_check:
  fixes bo :: size_t
  assumes "unat bo + PAGE_SIZE \<le> n" "n < 2 ^ 64"
  shows "\<not> bo > of_nat n - of_nat PAGE_SIZE"
proof -
  have n: "unat (of_nat n :: size_t) = n"
    using assms(2) by (rule unat_of_nat_size)
  have le: "(of_nat PAGE_SIZE :: size_t) \<le> of_nat n"
    using assms(1) by (simp add: word_le_nat_alt n unat_PAGE_SIZE)
  have "unat (of_nat n - of_nat PAGE_SIZE :: size_t) = n - PAGE_SIZE"
    using unat_sub [OF le] by (simp add: n unat_PAGE_SIZE)
  then show ?thesis
    using assms(1) by (simp add: word_less_nat_alt)
qed

lemma peek_mmap_view_inside:
  "a + n \<le> length f \<Longrightarrow> peek (mmap_view f) a n = Some (take n (drop a f))"
  by (simp add: peek_def mmap_view_def)

lemma length_memset_pattern [simp]: "length (memset_pattern pat len) = len"
  by (simp add: memset_pattern_def)

lemma nth_memset_pattern:
  "k < len \<Longrightarrow> memset_pattern pat len ! k = pat ! (k mod length pat)"
  by (simp add: memset_pattern_def)

lemma length_memset_pattern16 [simp]: "length (memset_pattern16 p len) = len"
  by (simp add: memset_pattern16_def)

lemma length_memset_pattern8 [simp]: "length (memset_pattern8 p len) = len"
  by (simp add: memset_pattern8_def)

lemma take_memset_pattern:
  "n \<le> length pat \<Longrightarrow> n \<le> len \<Longrightarrow> take n (memset_pattern pat len) = take n pat"
  by (rule nth_equalityI) (simp_all add: nth_memset_pattern)

lemma memset_pattern_prefix:
  assumes "length pat \<le> len"
  shows "take (length pat) (memset_pattern pat len) = pat"
  using take_memset_pattern [of "length pat" pat len] assms by simp

lemma memset_pattern16_inj:
  assumes "memset_pattern16 p PAGE_SIZE = memset_pattern16 q PAGE_SIZE"
  shows "p = q"
proof -
  have "take 16 (memset_pattern16 p PAGE_SIZE) = take 16 (memset_pattern16 q PAGE_SIZE)"
    using assms by simp
  then have eq: "to_bytes (fst p) @ to_bytes (snd p) = to_bytes (fst q) @ to_bytes (snd q)"
    using memset_pattern_prefix [of "to_bytes (fst p) @ to_bytes (snd p)" PAGE_SIZE]
          memset_pattern_prefix [of "to_bytes (fst q) @ to_bytes (snd q)" PAGE_SIZE]
    by (simp add: memset_pattern16_def PAGE_SIZE_def)
  then have "to_bytes (fst p) = to_bytes (fst q)" "to_bytes (snd p) = to_bytes (snd q)"
    by simp_all
  then have "from_bytes (to_bytes (fst p)) = from_bytes (to_bytes (fst q))"
       "from_bytes (to_bytes (snd p)) = from_bytes (to_bytes (snd q))"
    by simp_all
  then show ?thesis
    by (simp add: prod_eq_iff)
qed

lemma mmap_view_aligned: "length f mod PAGE_SIZE = 0 \<Longrightarrow> mmap_view f = f"
  by (simp add: mmap_view_def)

lemma check_slot_marked:
  assumes "read_header_entry (mmap_view f) i = Some h"
    and "marker h = - 1"
    and "unat (byte_offset_of h) + PAGE_SIZE \<le> length f"
    and "length f < 2 ^ 64"
  shows "check_slot (mmap_view f) (of_nat (length f)) i
           = Some (if data_page f h = memset_pattern16 (index h, version h) PAGE_SIZE
                   then Consistent
                   else if data_page f h = memset_pattern16 (index h, version h + 1) PAGE_SIZE
                   then InFlight
                   else Mismatch)"
proof -
  have chk: "\<not> byte_offset_of h > of_nat (length f) - of_nat PAGE_SIZE"
    using assms(3,4) by (rule in_bounds_passes_check)
  have pk: "peek (mmap_view f) (unat (byte_offset_of h)) PAGE_SIZE = Some (data_page f h)"
    using assms(3) by (simp add: peek_mmap_view_inside data_page_def)
  show ?thesis
    using assms(1,2) chk pk by (simp add: check_slot_def Let_def)
qed


lemma length_interrupted_file: "length interrupted_file = 20480"
  by (simp add: interrupted_file_def PAGE_SIZE_def)

lemma header_interrupted_file:
  "read_header_entry (mmap_view interrupted_file) 3
     = Some \<lparr>offset = 4096, index = 3, version = 2, marker = - 1\<rparr>"
proof -
  have "mmap_view interrupted_file = interrupted_file"
    by (rule mmap_view_aligned) (simp add: length_interrupted_file PAGE_SIZE_def)
  then show ?thesis
    by (simp add: read_header_entry_def peek_def length_interrupted_file)
       (simp add: interrupted_file_def)
qed

lemma page_interrupted_file:
  "data_page interrupted_file \<lparr>offset = 4096, index = 3, version = 2, marker = - 1\<rparr>
     = memset_pattern16 (3, 3) PAGE_SIZE"
  by (simp add: data_page_def byte_offset_of_def PAGE_SIZE_def)
     (simp add: interrupted_file_def PAGE_SIZE_def)


section \<open>Properties of the single-header verifier\<close>

lemma check_header_mapped:
  assumes "f \<noteq> []"
  shows "check_header (mmap_view f) file_size =
     Some (if take PAGE_SIZE (mmap_view f) \<noteq> memset_pattern8 file_size PAGE_SIZE then
                 if claimed_size f > file_size then HeaderAhead
                 else if claimed_size f < of_nat PAGE_SIZE then HeaderEmpty
                 else HeaderBehind
               else HeaderMatches)"
proof -
  have "PAGE_SIZE \<le> length (mmap_view f)"
    using assms by (rule mmap_view_page)
  moreover have "8 \<le> PAGE_SIZE" by (simp add: PAGE_SIZE_def)
  ultimately show ?thesis
    by (simp add: check_header_def peek_def claimed_size_def)
qed

lemma claimed_size_of_matching_header:
  assumes "take PAGE_SIZE (mmap_view f) = memset_pattern8 v PAGE_SIZE"
  shows "claimed_size f = v"
proof -
  have "take 8 (mmap_view f) = take 8 (take PAGE_SIZE (mmap_view f))"
    by (simp add: PAGE_SIZE_def)
  also have "\<dots> = take 8 (memset_pattern (to_bytes v) PAGE_SIZE)"
    using assms by (simp add: memset_pattern8_def)
  also have "\<dots> = to_bytes v"
    using take_memset_pattern [of 8 "to_bytes v" PAGE_SIZE]
    by (simp add: PAGE_SIZE_def)
  finally show ?thesis
    by (simp add: claimed_size_def)
qed

lemma verify_body_total:
  assumes "unat pc * PAGE_SIZE \<le> length base" "unat pc * PAGE_SIZE < 2 ^ 64" "i < pc"
  shows "\<exists>s'. verify_body base pc i s = Some s'"
  using assms(3)
proof (induction "unat i" arbitrary: i s)
  case 0
  then have "i = 0" by (simp add: unat_eq_0)
  then show ?case by (simp add: verify_body.simps)
next
  case (Suc n)
  then have pos: "0 < i" by (simp add: word_gt_0 unat_gt_0 [symmetric])
  have i1: "unat (i - 1) = n"
    using Suc.hyps(2) pos by (simp add: unat_minus_one word_gt_0)
  have lt1: "i - 1 < pc"
    using Suc.prems i1 Suc.hyps(2) by (simp add: word_less_nat_alt)
  have sub: "unat (pc - i) = unat pc - unat i"
    using Suc.prems by (simp add: unat_sub)
  have ilt: "unat i < unat pc" "0 < unat i"
    using Suc.prems pos by (simp_all add: word_less_nat_alt)
  have le: "(unat pc - unat i) * PAGE_SIZE + PAGE_SIZE \<le> unat pc * PAGE_SIZE"
  proof -
    have "(unat pc - unat i) + 1 \<le> unat pc" using ilt by simp
    then have "((unat pc - unat i) + 1) * PAGE_SIZE \<le> unat pc * PAGE_SIZE"
      by (rule mult_le_mono1)
    then show ?thesis by (simp add: algebra_simps)
  qed
  have "unat (pc - i) * unat (of_nat PAGE_SIZE :: size_t) < 2 ^ 64"
    using le assms(2) by (simp add: sub PAGE_SIZE_def)
  then have "unat ((pc - i) * of_nat PAGE_SIZE) = unat (pc - i) * unat (of_nat PAGE_SIZE :: size_t)"
    using unat_mult_lem [of "pc - i" "of_nat PAGE_SIZE :: size_t"] by simp
  then have bo: "unat ((pc - i) * of_nat PAGE_SIZE) = (unat pc - unat i) * PAGE_SIZE"
    by (simp add: sub PAGE_SIZE_def)
  have "(unat pc - unat i) * PAGE_SIZE + PAGE_SIZE \<le> length base"
    using le assms(1) by linarith
  then obtain page where pg: "peek base (unat ((pc - i) * of_nat PAGE_SIZE)) PAGE_SIZE = Some page"
    by (simp add: peek_def bo)
  obtain s' where "verify_body base pc (i - 1) (if page \<noteq> memset_pattern8 i PAGE_SIZE then False else s) = Some s'"
    using Suc.hyps(1) [OF i1 [symmetric] lt1] by blast
  then show ?case
    using pos pg by (subst verify_body.simps) (simp add: Let_def)
qed

lemma claimed_page_count:
  assumes "claimed_size f < of_nat (length f)" "of_nat PAGE_SIZE \<le> claimed_size f"
  defines "pc \<equiv> claimed_size f div of_nat PAGE_SIZE"
  shows "unat pc * PAGE_SIZE \<le> length (mmap_view f)"
    and "unat pc * PAGE_SIZE < 2 ^ 64"
    and "pc - 1 < pc"
proof -
  have pc: "unat pc = unat (claimed_size f) div PAGE_SIZE"
    by (simp add: pc_def unat_div unat_PAGE_SIZE)
  have "unat (of_nat (length f) :: size_t) \<le> length f"
    by (simp add: unat_of_nat)
  then have lt: "unat (claimed_size f) < length f"
    using assms(1) by (simp add: word_less_nat_alt)
  have le: "unat pc * PAGE_SIZE \<le> unat (claimed_size f)"
    by (simp add: pc)
  show "unat pc * PAGE_SIZE \<le> length (mmap_view f)"
    using le lt by (simp add: mmap_view_def)
  have "unat (claimed_size f) < 2 ^ 64"
    using unsigned_less [of "claimed_size f"] by simp
  then show "unat pc * PAGE_SIZE < 2 ^ 64"
    using le by linarith
  have "PAGE_SIZE \<le> unat (claimed_size f)"
    using assms(2) by (simp add: word_le_nat_alt unat_PAGE_SIZE)
  then have "0 < unat pc"
    by (simp add: pc PAGE_SIZE_def div_greater_zero_iff)
  then have "pc \<noteq> 0"
    by (simp add: unat_gt_0)
  then show "pc - 1 < pc"
    by (simp add: word_less_nat_alt unat_minus_one unat_gt_0)
qed

lemma header_classes:
  assumes "f \<noteq> []" and "claimed_size f \<noteq> of_nat (length f)"
  shows "(claimed_size f > of_nat (length f) \<longrightarrow>
            check_header (mmap_view f) (of_nat (length f)) = Some HeaderAhead
          \<and> verify_single_main (Opened f) = Returned 1)
       \<and> (claimed_size f < of_nat PAGE_SIZE \<longrightarrow>
            (check_header (mmap_view f) (of_nat (length f)) = Some HeaderAhead
             \<or> check_header (mmap_view f) (of_nat (length f)) = Some HeaderEmpty)
          \<and> verify_single_main (Opened f) = Returned 1)
       \<and> (claimed_size f < of_nat (length f) \<and> of_nat PAGE_SIZE \<le> claimed_size f \<longrightarrow>
            check_header (mmap_view f) (of_nat (length f)) = Some HeaderBehind
          \<and> (\<exists>success.
                verify_body (mmap_view f) (claimed_size f div of_nat PAGE_SIZE)
                  (claimed_size f div of_nat PAGE_SIZE - 1) True = Some success
              \<and> verify_single_main (Opened f) = Returned (if success then 1 else 0)))"
proof -
  have ne: "take PAGE_SIZE (mmap_view f) \<noteq> memset_pattern8 (of_nat (length f)) PAGE_SIZE"
    using claimed_size_of_matching_header [of f "of_nat (length f)"] assms(2) by blast
  have ahead: "check_header (mmap_view f) (of_nat (length f)) = Some HeaderAhead
          \<and> verify_single_main (Opened f) = Returned 1"
    if "claimed_size f > of_nat (length f)"
    using assms(1) ne that
    by (simp add: check_header_mapped verify_single_main_def Let_def)
  have empty: "(check_header (mmap_view f) (of_nat (length f)) = Some HeaderAhead
             \<or> check_header (mmap_view f) (of_nat (length f)) = Some HeaderEmpty)
          \<and> verify_single_main (Opened f) = Returned 1"
    if "claimed_size f < of_nat PAGE_SIZE"
    using assms(1) ne that
    by (simp add: check_header_mapped verify_single_main_def Let_def)
  have behind: "check_header (mmap_view f) (of_nat (length f)) = Some HeaderBehind
          \<and> (\<exists>success.
                verify_body (mmap_view f) (claimed_size f div of_nat PAGE_SIZE)
                  (claimed_size f div of_nat PAGE_SIZE - 1) True = Some success
              \<and> verify_single_main (Opened f) = Returned (if success then 1 else 0))"
    if lt: "claimed_size f < of_nat (length f)" and ge: "of_nat PAGE_SIZE \<le> claimed_size f"
  proof -
    have c: "check_header (mmap_view f) (of_nat (length f)) = Some HeaderBehind"
      using assms(1) ne lt ge by (auto simp: check_header_mapped)
    obtain success where b:
      "verify_body (mmap_view f) (claimed_size f div of_nat PAGE_SIZE)
         (claimed_size f div of_nat PAGE_SIZE - 1) True = Some success"
      using verify_body_total [OF claimed_page_count [OF lt ge]] by blast
    then have "verify_single_main (Opened f) = Returned (if success then 1 else 0)"
      using assms(1) c by (simp add: verify_single_main_def Let_def)
    with c b show ?thesis by blast
  qed
  from ahead empty behind show ?thesis by blast
qed

lemma claimed_size_zeros: "claimed_size (replicate n 0) = 0"
  by (simp add: claimed_size_def mmap_view_def flip: replicate_add)

lemma claimed_size_pattern_file:
  "claimed_size (memset_pattern8 v PAGE_SIZE @ rest) = v"
proof -
  have "take 8 (mmap_view (memset_pattern8 v PAGE_SIZE @ rest))
          = take 8 (memset_pattern (to_bytes v) PAGE_SIZE)"
    by (simp add: mmap_view_def memset_pattern8_def PAGE_SIZE_def)
  also have "\<dots> = to_bytes v"
    using take_memset_pattern [of 8 "to_bytes v" PAGE_SIZE] by (simp add: PAGE_SIZE_def)
  finally show ?thesis by (simp add: claimed_size_def)
qed

text \<open>
  C4. When the size claimed by the header differs from the actual size of the file, the
  cases are tried in this order (lines 50 to 58): a claimed size larger than the actual
  size is classified \<open>HeaderAhead\<close> and the verifier returns 1 at once; a claimed size
  smaller than \<open>PAGE_SIZE\<close> is classified hard corruption (\<open>HeaderAhead\<close> or
  \<open>HeaderEmpty\<close>) and the verifier returns 1 at once; any other claimed size that is
  smaller than the actual size and a multiple of \<open>PAGE_SIZE\<close> is classified
  \<open>HeaderBehind\<close>, after which the body loop runs over the claimed page count, without
  leaving the mapping, and its flag is the exit status.
\<close>

theorem single_header_classification:
  assumes "f \<noteq> []" and "claimed_size f \<noteq> of_nat (length f)"
  shows "(claimed_size f > of_nat (length f) \<longrightarrow>
            check_header (mmap_view f) (of_nat (length f)) = Some HeaderAhead
          \<and> verify_single_main (Opened f) = Returned 1)
       \<and> (claimed_size f < of_nat PAGE_SIZE \<longrightarrow>
            (check_header (mmap_view f) (of_nat (length f)) = Some HeaderAhead
             \<or> check_header (mmap_view f) (of_nat (length f)) = Some HeaderEmpty)
          \<and> verify_single_main (Opened f) = Returned 1)
       \<and> (\<not> claimed_size f > of_nat (length f) \<and> \<not> claimed_size f < of_nat PAGE_SIZE
            \<and> claimed_size f < of_nat (length f)
            \<and> unat (claimed_size f) mod PAGE_SIZE = 0 \<longrightarrow>
            check_header (mmap_view f) (of_nat (length f)) = Some HeaderBehind
          \<and> (\<exists>success.
                verify_body (mmap_view f) (claimed_size f div of_nat PAGE_SIZE)
                  (claimed_size f div of_nat PAGE_SIZE - 1) True = Some success
              \<and> verify_single_main (Opened f) = Returned (if success then 1 else 0)))"
  using header_classes [OF assms] by (simp add: not_less)

theorem single_header_classification_witness:
  "lagging_header_file \<noteq> []
   \<and> claimed_size lagging_header_file = 4096
   \<and> of_nat (length lagging_header_file) = (8192 :: size_t)
   \<and> unat (claimed_size lagging_header_file) mod PAGE_SIZE = 0
   \<and> check_header (mmap_view lagging_header_file) (of_nat (length lagging_header_file))
        = Some HeaderBehind
   \<and> verify_single_main (Opened lagging_header_file) = Returned 1
   \<and> replicate 8192 (0::byte) \<noteq> []
   \<and> claimed_size (replicate 8192 0) = 0
   \<and> verify_single_main (Opened (replicate 8192 0)) = Returned 1
   \<and> claimed_size (to_bytes (- 1) @ replicate 4088 0) = - 1
   \<and> check_header (mmap_view (to_bytes (- 1) @ replicate 4088 0)) (of_nat (length ((to_bytes (- 1) @ replicate 4088 0))))
        = Some HeaderAhead
   \<and> verify_single_main (Opened (to_bytes (- 1) @ replicate 4088 0)) = Returned 1"
proof -
  have cs: "claimed_size lagging_header_file = 4096"
    unfolding lagging_header_file_def by (rule claimed_size_pattern_file)
  have len: "length lagging_header_file = 8192"
    by (simp add: lagging_header_file_def PAGE_SIZE_def)
  have ne: "lagging_header_file \<noteq> []"
    using len by auto
  have body: "verify_body (mmap_view lagging_header_file) 1 0 True = Some True"
    by (simp add: verify_body.simps)
  have a: "check_header (mmap_view lagging_header_file) (of_nat (length lagging_header_file))
        = Some HeaderBehind
      \<and> verify_single_main (Opened lagging_header_file) = Returned 1"
    using single_header_classification [OF ne] body
    by (auto simp: cs len PAGE_SIZE_def)
  have b: "verify_single_main (Opened (replicate 8192 0)) = Returned 1"
    using single_header_classification [of "replicate 8192 0"]
    by (simp add: claimed_size_zeros PAGE_SIZE_def)
  have ff: "claimed_size (to_bytes (- 1) @ replicate 4088 0) = - 1"
    by (simp add: claimed_size_def mmap_view_def PAGE_SIZE_def)
  have c: "check_header (mmap_view (to_bytes (- 1) @ replicate 4088 0)) (of_nat (length ((to_bytes (- 1) @ replicate 4088 0))))
        = Some HeaderAhead
      \<and> verify_single_main (Opened (to_bytes (- 1) @ replicate 4088 0)) = Returned 1"
    using single_header_classification [of "to_bytes (- 1) @ replicate 4088 0"]
    by (simp add: ff word_less_nat_alt unsigned_minus_1_eq_mask mask_eq_exp_minus_1)
  show ?thesis
    using ne cs len a b ff c by (simp add: claimed_size_zeros PAGE_SIZE_def)
qed


section \<open>The exit status of the verifiers\<close>

lemma peek_zero_window:
  "length pre \<le> a \<Longrightarrow> a + n \<le> length pre + m
   \<Longrightarrow> peek (pre @ replicate m 0 @ post) a n = Some (replicate n 0)"
  by (simp add: peek_def min_def)

lemma zero_entry_unwritten:
  assumes "peek base (j * 32) 32 = Some (replicate 32 0)"
  shows "check_slot base fs j = Some Unwritten"
  using assms by (simp add: check_slot_def read_header_entry_def)

lemma upt_16: "[0..<16] = [0, 1, 2] @ 3 # [4..<16]"
  by (simp add: upt_rec)

lemma verify_slots_append:
  "verify_slots base fs (xs @ ys) s =
     (case verify_slots base fs xs s of None \<Rightarrow> None | Some s' \<Rightarrow> verify_slots base fs ys s')"
  by (induction xs arbitrary: s) (auto split: option.splits)

lemma verdict_interrupted_file: "verdict interrupted_file = Some True"
proof -
  let ?base = "mmap_view interrupted_file"
  have base: "?base = interrupted_file"
    by (rule mmap_view_aligned) (simp add: length_interrupted_file PAGE_SIZE_def)
  have low: "check_slot ?base fs j = Some Unwritten" if "j \<in> set [0, 1, 2]" for j fs
  proof (rule zero_entry_unwritten)
    have eq: "?base = [] @ replicate 96 0 @
            (to_bytes 4096 @ to_bytes 3 @ to_bytes 2 @ to_bytes (- 1)
              @ replicate 3968 0 @ replicate 12288 0 @ memset_pattern16 (3, 3) PAGE_SIZE)"
      by (subst base) (simp add: interrupted_file_def)
    show "peek ?base (j * 32) 32 = Some (replicate 32 0)"
      unfolding eq by (rule peek_zero_window) (use that in auto)
  qed
  have high: "check_slot ?base fs j = Some Unwritten" if "j \<in> set [4..<16]" for j fs
  proof (rule zero_entry_unwritten)
    have eq: "?base = (replicate 96 0 @ to_bytes 4096 @ to_bytes 3 @ to_bytes 2 @ to_bytes (- 1))
              @ replicate 3968 0 @ (replicate 12288 0 @ memset_pattern16 (3, 3) PAGE_SIZE)"
      by (subst base) (simp add: interrupted_file_def)
    show "peek ?base (j * 32) 32 = Some (replicate 32 0)"
      unfolding eq by (rule peek_zero_window) (use that in auto)
  qed
  have ne: "memset_pattern16 (3, 3) PAGE_SIZE \<noteq> memset_pattern16 (3, 2) PAGE_SIZE"
    using memset_pattern16_inj [of "(3, 3)" "(3, 2)"] by auto
  have "unat (byte_offset_of \<lparr>offset = 4096, index = 3, version = 2, marker = - 1\<rparr>)
          + PAGE_SIZE \<le> length interrupted_file"
    by (simp add: byte_offset_of_def PAGE_SIZE_def length_interrupted_file)
  then have mid: "check_slot ?base (of_nat (length interrupted_file)) 3 = Some InFlight"
    using check_slot_marked [OF header_interrupted_file] ne
    by (simp add: page_interrupted_file length_interrupted_file)
  have a: "verify_slots ?base (of_nat (length interrupted_file)) [0, 1, 2] True = Some True"
    by (rule verify_slots_all_unwritten [OF low])
  have "verify_slots ?base (of_nat (length interrupted_file)) [4..<16] True = Some True"
    by (rule verify_slots_all_unwritten [OF high])
  then have b: "verify_slots ?base (of_nat (length interrupted_file)) (3 # [4..<16]) True
                  = Some True"
    using mid by (simp add: slot_success_def)
  show ?thesis
    unfolding verdict_def upt_16 verify_slots_append
    by (simp only: a b option.case)
qed

lemma verdict_dangling_header_file: "verdict dangling_header_file = Some False"
proof -
  let ?base = "mmap_view dangling_header_file"
  have eq: "?base = dangling_header_file @ replicate 4064 0 @ []"
    by (simp add: mmap_view_def dangling_header_file_def PAGE_SIZE_def)
  have rest: "check_slot ?base fs j = Some Unwritten" if "j \<in> set [Suc 0..<16]" for j fs
  proof (rule zero_entry_unwritten)
    show "peek ?base (j * 32) 32 = Some (replicate 32 0)"
      unfolding eq by (rule peek_zero_window) (use that in \<open>auto simp: dangling_header_file_def\<close>)
  qed
  have hd: "read_header_entry ?base 0 = Some \<lparr>offset = - 1, index = 0, version = 0, marker = - 1\<rparr>"
    unfolding dangling_header_file_def by (rule header_past_small_file)
  have first: "check_slot ?base (of_nat (length dangling_header_file)) 0 = Some HardCorrupt"
    by (simp add: check_slot_def hd byte_offset_of_def)
       (simp add: dangling_header_file_def PAGE_SIZE_def)
  have tl: "verify_slots ?base (of_nat (length dangling_header_file)) [Suc 0..<16] False
              = Some False"
    by (rule verify_slots_all_unwritten [OF rest])
  have "[0..<16] = 0 # [Suc 0..<16]"
    by (rule upt_conv_Cons) simp
  then show ?thesis
    by (simp add: verdict_def first slot_success_def tl)
qed

lemma clean_single_file_ok: "verify_single_main (Opened clean_single_file) = Returned 1"
proof -
  have len: "length clean_single_file = 4096"
    by (simp add: clean_single_file_def PAGE_SIZE_def)
  then have ne: "clean_single_file \<noteq> []" by auto
  have base: "mmap_view clean_single_file = clean_single_file"
    by (rule mmap_view_aligned) (simp add: len PAGE_SIZE_def)
  have page: "take PAGE_SIZE (mmap_view clean_single_file) = memset_pattern8 4096 PAGE_SIZE"
    by (simp add: base) (simp add: clean_single_file_def)
  have cs: "claimed_size clean_single_file = 4096"
    using page by (rule claimed_size_of_matching_header)
  have hdr: "check_header (mmap_view clean_single_file) 4096 = Some HeaderMatches"
    using page by (simp add: check_header_mapped [OF ne])
  show ?thesis
    using ne by (simp add: verify_single_main_def hdr cs len PAGE_SIZE_def verify_body.simps)
qed

lemma torn_body_file_fails: "verify_single_main (Opened torn_body_file) = Returned 0"
proof -
  have len: "length torn_body_file = 8192"
    by (simp add: torn_body_file_def PAGE_SIZE_def)
  then have ne: "torn_body_file \<noteq> []" by auto
  have base: "mmap_view torn_body_file = torn_body_file"
    by (rule mmap_view_aligned) (simp add: len PAGE_SIZE_def)
  have page: "take PAGE_SIZE (mmap_view torn_body_file) = memset_pattern8 8192 PAGE_SIZE"
    by (simp add: base) (simp add: torn_body_file_def)
  have cs: "claimed_size torn_body_file = 8192"
    using page by (rule claimed_size_of_matching_header)
  have hdr: "check_header (mmap_view torn_body_file) 8192 = Some HeaderMatches"
    using page by (simp add: check_header_mapped [OF ne])
  have pc: "(8192 :: size_t) div 4096 = 2" by simp
  have pk: "peek (mmap_view torn_body_file) 4096 PAGE_SIZE = Some (replicate 4096 0)"
    by (simp add: base peek_def len) (simp add: torn_body_file_def PAGE_SIZE_def)
  have "from_bytes (take 8 (memset_pattern8 1 PAGE_SIZE)) = 1"
    using take_memset_pattern [of 8 "to_bytes 1" PAGE_SIZE]
    by (simp add: memset_pattern8_def PAGE_SIZE_def)
  moreover have "from_bytes (take 8 (replicate 4096 0)) = 0"
    by simp
  ultimately have ne1: "replicate 4096 0 \<noteq> memset_pattern8 1 PAGE_SIZE"
    by (metis zero_neq_one)
  have body: "verify_body (mmap_view torn_body_file) 2 1 True = Some False"
    by (subst verify_body.simps) (simp add: PAGE_SIZE_def pk [unfolded PAGE_SIZE_def] ne1 [unfolded PAGE_SIZE_def] verify_body.simps)
  show ?thesis
    using ne by (simp add: verify_single_main_def hdr cs len PAGE_SIZE_def pc body [unfolded PAGE_SIZE_def])
qed

text \<open>
  C3, on the code. Both verifiers end with \<open>return success\<close>: a single-header file
  that is fully consistent exits with status 1 and one with a body mismatch exits with
  status 0; a multi-slot file whose only marked slot is in-flight exits with status 1
  and one with a hard-corrupt slot exits with status 0.
\<close>

theorem verifier_exit_status_is_success_flag:
  "verify_single_main (Opened clean_single_file) = Returned 1
   \<and> verify_single_main (Opened torn_body_file) = Returned 0
   \<and> verdict interrupted_file = Some True
   \<and> verify_main (Opened interrupted_file) = Returned 1
   \<and> verdict dangling_header_file = Some False
   \<and> verify_main (Opened dangling_header_file) = Returned 0"
proof -
  have "interrupted_file \<noteq> []"
    using length_interrupted_file by auto
  moreover have "dangling_header_file \<noteq> []"
    by (simp add: dangling_header_file_def)
  ultimately show ?thesis
    by (simp add: clean_single_file_ok torn_body_file_fails verify_main_def
          verdict_interrupted_file verdict_dangling_header_file)
qed


section \<open>A byte offset that wraps around\<close>









section \<open>Barrier lists\<close>

lemma and_then_Inr [simp]: "and_then (Inr w) f = f w"
  by (simp add: and_then_def)

lemma and_then_Inl [simp]: "and_then (Inl e) f = Inl e"
  by (simp add: and_then_def)

lemma and_then_eq_Inr:
  "and_then r f = Inr w' \<longleftrightarrow> (\<exists>w. r = Inr w \<and> f w = Inr w')"
  by (cases r) simp_all

lemma and_then_assoc:
  "and_then (and_then r f) g = and_then r (\<lambda>w. and_then (f w) g)"
  by (cases r) simp_all

lemma iterate_append:
  "iterate body (xs @ ys) w = and_then (iterate body xs w) (iterate body ys)"
proof (induction xs arbitrary: w)
  case Nil
  show ?case by simp
next
  case (Cons x xs)
  show ?case
    by (cases "body x w") (simp_all add: Cons.IH)
qed

lemma buffer_calls [simp]: "buffer (w\<lparr>calls := cs\<rparr>) = buffer w"
  by (simp add: buffer_def split: write_kind.splits)

lemma barrier_call_calls [simp]:
  "barrier_call (w\<lparr>calls := cs\<rparr>) st = barrier_call w st"
  by (cases st) (simp_all add: barrier_call_def)

lemma sync_iterate: "sync k strategies = iterate (sync_one k) strategies"
  by (rule ext) (simp add: sync_def)

lemma sync_one_effect:
  assumes "sync_one k st w = Inr w'"
  shows "w' = w\<lparr>calls := calls w @ barrier_call w st\<rparr>"
  using assms
  by (cases st) (auto simp: sync_one_def barrier_call_def sys_def split: option.splits if_splits)

lemma sync_effect:
  assumes "sync k strategies w = Inr w'"
  shows "w' = w\<lparr>calls := calls w @ concat (map (barrier_call w) strategies)\<rparr>"
  using assms unfolding sync_def
proof (induction strategies arbitrary: w)
  case Nil
  then show ?case by simp
next
  case (Cons st rest)
  then obtain w1 where w1: "sync_one k st w = Inr w1" and r: "iterate (sync_one k) rest w1 = Inr w'"
    by (auto simp: and_then_eq_Inr)
  have "w1 = w\<lparr>calls := calls w @ barrier_call w st\<rparr>"
    using w1 by (rule sync_one_effect)
  with Cons.IH [OF r] show ?case by simp
qed

lemma msync_skipped:
  "buffer w = None \<or> m_length w = 0 \<Longrightarrow> sync_one k MSync w = Inr w"
  by (auto simp: sync_one_def split: option.splits)

text \<open>
  C8. A barrier list that returns has made exactly the calls of its members, in the
  order of the list, and changed nothing else; a list \<open>xs @ ys\<close> is \<open>xs\<close> followed by
  \<open>ys\<close>; and \<open>MSync\<close> on a writer without a mapping, or of length zero, makes no call
  and returns normally whatever the kernel would answer.
\<close>

theorem barrier_list_in_order:
  "(sync k strategies w = Inr w' \<longrightarrow>
      w' = w\<lparr>calls := calls w @ concat (map (barrier_call w) strategies)\<rparr>)
   \<and> sync k (xs @ ys) w = and_then (sync k xs w) (sync k ys)
   \<and> (buffer w = None \<or> m_length w = 0 \<longrightarrow>
        sync_one k MSync w = Inr w \<and> barrier_call w MSync = [])"
  using sync_effect [of k strategies w w'] msync_skipped [of w k]
  by (auto simp: sync_iterate iterate_append barrier_call_def)

theorem barrier_list_in_order_witness:
  "sync (\<lambda>h c. True) [MSync, FullFSync] mapped_writer
     = Inr (mapped_writer\<lparr>calls := [Msync 4096, FullFsyncFile]\<rparr>)
   \<and> sync (\<lambda>h c. True) [MSync, FullFSync] positional_writer
     = Inr (positional_writer\<lparr>calls := [FullFsyncFile]\<rparr>)
   \<and> buffer positional_writer = None
   \<and> sync_one (\<lambda>h c. False) MSync positional_writer = Inr positional_writer"
proof -
  obtain w1 where w1: "sync (\<lambda>h c. True) [MSync, FullFSync] mapped_writer = Inr w1"
    by (simp add: sync_def sync_one_def sys_def buffer_def mapped_writer_def)
  obtain w2 where w2: "sync (\<lambda>h c. True) [MSync, FullFSync] positional_writer = Inr w2"
    by (simp add: sync_def sync_one_def sys_def buffer_def positional_writer_def)
  have b: "buffer positional_writer = None"
    by (simp add: buffer_def positional_writer_def)
  show ?thesis
    using barrier_list_in_order [of "\<lambda>h c. True" "[MSync, FullFSync]" mapped_writer w1]
          barrier_list_in_order [of "\<lambda>h c. True" "[MSync, FullFSync]" positional_writer w2]
          barrier_list_in_order [of "\<lambda>h c. False" "[]" positional_writer]
          w1 w2 b
    by (simp add: barrier_call_def buffer_def) (simp add: mapped_writer_def positional_writer_def)
qed


section \<open>Effects of the writer operations\<close>

lemma length_after_append:
  "length_after len (cs @ ds) = length_after (length_after len cs) ds"
  by (induction len cs rule: length_after.induct) simp_all

lemma never_truncates_append:
  "never_truncates len (cs @ ds) \<longleftrightarrow>
     never_truncates len cs \<and> never_truncates (length_after len cs) ds"
  by (induction len cs rule: never_truncates.induct) simp_all

lemma writes_in_bounds_append:
  "writes_in_bounds len (cs @ ds) \<longleftrightarrow>
     writes_in_bounds len cs \<and> writes_in_bounds (length_after len cs) ds"
  by (induction len cs rule: writes_in_bounds.induct) simp_all

lemma length_resize [simp]: "length (resize n c) = n"
  by (simp add: resize_def)

lemma store_inside:
  "off + length d \<le> length c \<Longrightarrow> store off d c = take off c @ d @ drop (off + length d) c"
  by (simp add: store_def)

lemma length_store [simp]:
  "off + length d \<le> length c \<Longrightarrow> length (store off d c) = length c"
  by (simp add: store_inside)

lemma nth_store:
  assumes "off + length d \<le> length c" "i < length c"
  shows "store off d c ! i = (if off \<le> i \<and> i < off + length d then d ! (i - off) else c ! i)"
proof -
  have "off \<le> length c" using assms(1) by simp
  then show ?thesis
    using assms by (auto simp: store_inside nth_append min_def)
qed

lemma slice_store_same:
  assumes "off + length d \<le> length c"
  shows "take (length d) (drop off (store off d c)) = d"
  using assms by (simp add: store_inside)

lemma slice_store_other:
  assumes "off + length d \<le> length c" "a + n \<le> length c"
    and "a + n \<le> off \<or> off + length d \<le> a"
  shows "take n (drop a (store off d c)) = take n (drop a c)"
proof (rule nth_equalityI)
  show "length (take n (drop a (store off d c))) = length (take n (drop a c))"
    using assms(1) by simp
next
  fix i assume "i < length (take n (drop a (store off d c)))"
  then have i: "i < n" by simp
  then have "a + i < length c" using assms(2) by simp
  then show "take n (drop a (store off d c)) ! i = take n (drop a c) ! i"
    using i assms by (auto simp: nth_store)
qed

lemma ends_Inr: "ends k P (Inr w) \<longleftrightarrow> intact w \<and> P w"
  by (simp add: ends_def)

lemma ends_and_then:
  assumes "ends k P r" and "\<And>w. intact w \<Longrightarrow> P w \<Longrightarrow> ends k Q (f w)"
  shows "ends k Q (and_then r f)"
  using assms by (cases r) (auto simp: ends_def)

lemma ends_weaken:
  assumes "ends k P r" and "\<And>w. intact w \<Longrightarrow> P w \<Longrightarrow> Q w"
  shows "ends k Q r"
  using assms by (cases r) (auto simp: ends_def)

lemma ends_iterate:
  assumes "intact w" "I 0 w"
    and "\<And>m w. m < length xs \<Longrightarrow> intact w \<Longrightarrow> I m w \<Longrightarrow> ends k (I (Suc m)) (body (xs ! m) w)"
  shows "ends k (I (length xs)) (iterate body xs w)"
  using assms
proof (induction xs arbitrary: w I)
  case Nil
  then show ?case by (simp add: ends_Inr)
next
  case (Cons x xs)
  have first: "ends k (I (Suc 0)) (body x w)"
    using Cons.prems(3) [of 0 w] Cons.prems(1,2) by simp
  have rest: "ends k (I (Suc (length xs))) (iterate body xs w')" if "intact w'" "I (Suc 0) w'" for w'
  proof -
    have "ends k ((\<lambda>m. I (Suc m)) (length xs)) (iterate body xs w')"
    proof (rule Cons.IH)
      show "intact w'" by (rule that)
      show "I (Suc 0) w'" by (rule that)
    next
      fix m w'' assume "m < length xs" "intact w''" "I (Suc m) w''"
      then show "ends k (I (Suc (Suc m))) (body (xs ! m) w'')"
        using Cons.prems(3) [of "Suc m" w''] by simp
    qed
    then show ?thesis by simp
  qed
  show ?case
    using ends_and_then [OF first rest] by simp
qed

lemma trace_ok_snoc_other:
  assumes "trace_ok w" "\<And>n. c \<noteq> Ftruncate n" "\<And>off d. c \<noteq> Pwrite off d" "\<And>off d. c \<noteq> Memcpy off d"
  shows "trace_ok (w\<lparr>calls := calls w @ [c]\<rparr>)"
  using assms
  by (cases c) (auto simp: trace_ok_def length_after_append never_truncates_append writes_in_bounds_append)

lemma ends_sync_one:
  assumes "intact w"
  shows "ends k (\<lambda>w'. w' = w\<lparr>calls := calls w @ barrier_call w st\<rparr>) (sync_one k st w)"
proof -
  have other: "ends k (\<lambda>w'. w' = w\<lparr>calls := calls w @ [c]\<rparr>) (sys k c w)"
    if "apply_call c (content w) = content w"
       "\<And>n. c \<noteq> Ftruncate n" "\<And>off d. c \<noteq> Pwrite off d" "\<And>off d. c \<noteq> Memcpy off d" for c
  proof -
    have "trace_ok (w\<lparr>calls := calls w @ [c]\<rparr>)"
      using assms that(2-4) by (intro trace_ok_snoc_other) (simp_all add: intact_def)
    then show ?thesis
      using assms that(1) by (auto simp: ends_def sys_def intact_def)
  qed
  have same: "ends k (\<lambda>w'. w' = w\<lparr>calls := calls w @ []\<rparr>) (Inr w)"
    using assms by (simp add: ends_def)
  show ?thesis
  proof (cases st)
    case NoopSync
    then show ?thesis using same by (simp add: sync_one_def barrier_call_def)
  next
    case MSync
    then show ?thesis
      using same other [of "Msync (m_length w)"]
      by (auto simp: sync_one_def barrier_call_def split: option.splits)
  next
    case FSync
    then show ?thesis using other [of FsyncFile] by (simp add: sync_one_def barrier_call_def)
  next
    case FSyncParent
    then show ?thesis using other [of FsyncParentDir] by (simp add: sync_one_def barrier_call_def)
  next
    case FullFSync
    then show ?thesis using other [of FullFsyncFile] by (simp add: sync_one_def barrier_call_def)
  qed
qed

lemma ends_sync:
  assumes "intact w"
  shows "ends k (\<lambda>w'. w' = w\<lparr>calls := calls w @ concat (map (barrier_call w) sts)\<rparr>)
           (sync k sts w)"
proof -
  let ?I = "\<lambda>m w'. w' = w\<lparr>calls := calls w @ concat (map (barrier_call w) (take m sts))\<rparr>"
  have "ends k (?I (length sts)) (iterate (sync_one k) sts w)"
  proof (rule ends_iterate)
    show "intact w" by (rule assms)
    show "?I 0 w" by simp
  next
    fix m w' assume m: "m < length sts" and w': "intact w'" "?I m w'"
    have "ends k (\<lambda>w''. w'' = w'\<lparr>calls := calls w' @ barrier_call w' (sts ! m)\<rparr>)
            (sync_one k (sts ! m) w')"
      using w'(1) by (rule ends_sync_one)
    then show "ends k (?I (Suc m)) (sync_one k (sts ! m) w')"
    proof (rule ends_weaken)
      fix w'' assume "w'' = w'\<lparr>calls := calls w' @ barrier_call w' (sts ! m)\<rparr>"
      moreover have "barrier_call w' (sts ! m) = barrier_call w (sts ! m)"
        by (subst w'(2)) simp
      ultimately show "?I (Suc m) w''"
        using m by (subst (asm) w'(2), subst (asm) w'(2)) (simp add: take_Suc_conv_app_nth)
    qed
  qed
  then show ?thesis
    by (simp add: sync_def)
qed

lemma ends_write_bytes:
  assumes "intact w" "off + length d \<le> m_length w" "d \<noteq> []"
  shows "ends k (\<lambda>w'. w' = w\<lparr>content := store off d (content w),
                               calls := calls w @ [write_call w off d]\<rparr>)
           (write_bytes k off d w)"
proof -
  have t: "trace_ok (w\<lparr>content := c', calls := calls w @ [write_call w off d]\<rparr>)" for c'
    using assms(1,2)
    by (cases "strategy w")
       (auto simp: trace_ok_def intact_def write_call_def length_after_append
          never_truncates_append writes_in_bounds_append)
  have i: "intact (w\<lparr>content := store off d (content w),
                     calls := calls w @ [write_call w off d]\<rparr>)"
    using assms(1,2) t [of "store off d (content w)"] by (simp add: intact_def)
  show ?thesis
  proof (cases "strategy w")
    case MMapWrite
    moreover have "m_length w \<noteq> 0"
      using assms(2,3) by (cases d) auto
    then have "m_buffer w = Some (m_length w)"
      using assms(1) MMapWrite by (simp add: intact_def)
    ultimately show ?thesis
      using assms(2) i by (simp add: write_bytes_def ends_def write_call_def)
  next
    case PWriteWrite
    then show ?thesis
      using assms(1,2) i by (auto simp: write_bytes_def sys_def ends_def write_call_def intact_def)
  qed
qed

lemma ends_extend:
  assumes "intact w" "m_length w \<le> len" "0 < len"
  shows "ends k (\<lambda>w'. w' = w\<lparr>m_length := len,
                               m_buffer := (case strategy w of MMapWrite \<Rightarrow> Some len
                                            | PWriteWrite \<Rightarrow> m_buffer w),
                               content := resize len (content w),
                               calls := calls w @ extend_calls w len\<rparr>)
           (extend k len w)"
proof -
  have tr: "length_after 0 (calls w) = m_length w" "never_truncates 0 (calls w)"
           "writes_in_bounds 0 (calls w)"
    using assms(1) by (simp_all add: intact_def trace_ok_def)
  show ?thesis
  proof (cases "k (calls w) (Ftruncate len)")
    case False
    then have "extend k len w = Inl (SystemError, w)"
      by (simp add: extend_def base_extend_def sys_def split: write_kind.splits)
    then show ?thesis
      using assms(1) False by (auto simp: ends_def intact_def)
  next
    case True
    show ?thesis
    proof (cases "strategy w")
      case PWriteWrite
      then show ?thesis
        using True assms tr
        by (simp add: extend_def base_extend_def sys_def ends_def intact_def trace_ok_def
              extend_calls_def length_after_append never_truncates_append
              writes_in_bounds_append)
    next
      case MMapWrite
      then show ?thesis
        using True assms tr
        by (simp add: extend_def base_extend_def sys_def remap_def Let_def ends_def intact_def
              trace_ok_def extend_calls_def length_after_append never_truncates_append
              writes_in_bounds_append)
           blast
    qed
  qed
qed

lemma ends_create: "ends k (\<lambda>w. m_length w = 0 \<and> strategy w = kind) (create k kind)"
  by (auto simp: create_def sys_def ends_def intact_def trace_ok_def)

lemma length_header_bytes [simp]: "length (header_bytes b i v) = 32"
  by (simp add: header_bytes_def)

lemma ends_slot_rewrite:
  assumes "intact w" "m_length w = (16 * (i + 1) + 1) * PAGE_SIZE"
  shows "ends k (\<lambda>w'. m_length w' = m_length w
                   \<and> content w' =
                       store (j mod 16 * 32) (header_bytes ((16 * i + 1) * PAGE_SIZE) (j mod 16) (j div 16))
                         (store ((16 * i + 1) * PAGE_SIZE + j mod 16 * PAGE_SIZE)
                            (memset_pattern16 (of_nat (j mod 16), of_nat (j div 16)) PAGE_SIZE)
                            (content w)))
           (slot_rewrite k ws i j w)"
proof -
  let ?base = "(16 * i + 1) * PAGE_SIZE"
  let ?off = "?base + j mod 16 * PAGE_SIZE"
  let ?page = "memset_pattern16 (of_nat (j mod 16), of_nat (j div 16)) PAGE_SIZE"
  let ?hdr = "header_bytes ?base (j mod 16) (j div 16)"
  have base: "(16 * (i + 1) + 1 - 16) * PAGE_SIZE = ?base"
    by simp
  have idx: "j mod 16 < 16" by simp
  have b1: "?off + length ?page \<le> m_length w"
    using idx by (simp add: assms(2) PAGE_SIZE_def)
  have b2: "j mod 16 * 32 + length ?hdr \<le> m_length w"
    using idx by (simp add: assms(2) PAGE_SIZE_def)
  have ne: "?page \<noteq> []" "?hdr \<noteq> []"
    by (auto simp: PAGE_SIZE_def dest: arg_cong [where f = length])
  have s1: "ends k (\<lambda>w'. w' = w\<lparr>content := store ?off ?page (content w),
                                calls := calls w @ [write_call w ?off ?page]\<rparr>)
              (write_bytes k ?off ?page w)"
    using assms(1) b1 ne(1) by (rule ends_write_bytes)
  have s2: "ends k (\<lambda>w'. m_length w' = m_length w \<and> content w' = store ?off ?page (content w))
              (and_then (write_bytes k ?off ?page w) (sync k ws))"
    using s1
  proof (rule ends_and_then)
    fix w1 assume w1: "intact w1"
      "w1 = w\<lparr>content := store ?off ?page (content w), calls := calls w @ [write_call w ?off ?page]\<rparr>"
    show "ends k (\<lambda>w'. m_length w' = m_length w \<and> content w' = store ?off ?page (content w))
            (sync k ws w1)"
      using ends_sync [OF w1(1), of k ws]
      by (rule ends_weaken) (simp add: w1(2))
  qed
  have s3: "ends k (\<lambda>w'. m_length w' = m_length w
                       \<and> content w' = store (j mod 16 * 32) ?hdr (store ?off ?page (content w)))
              (and_then (and_then (write_bytes k ?off ?page w) (sync k ws))
                 (write_bytes k (j mod 16 * 32) ?hdr))"
    using s2
  proof (rule ends_and_then)
    fix w2 assume w2: "intact w2"
      "m_length w2 = m_length w \<and> content w2 = store ?off ?page (content w)"
    have "j mod 16 * 32 + length ?hdr \<le> m_length w2"
      using b2 w2(2) by simp
    with w2(1) have "ends k (\<lambda>w'. w' = w2\<lparr>content := store (j mod 16 * 32) ?hdr (content w2),
                                calls := calls w2 @ [write_call w2 (j mod 16 * 32) ?hdr]\<rparr>)
              (write_bytes k (j mod 16 * 32) ?hdr w2)"
      using ne(2) by (rule ends_write_bytes)
    then show "ends k (\<lambda>w'. m_length w' = m_length w
                       \<and> content w' = store (j mod 16 * 32) ?hdr (store ?off ?page (content w)))
              (write_bytes k (j mod 16 * 32) ?hdr w2)"
      by (rule ends_weaken) (simp add: w2(2))
  qed
  have "ends k (\<lambda>w'. m_length w' = m_length w
                       \<and> content w' = store (j mod 16 * 32) ?hdr (store ?off ?page (content w)))
              (and_then (and_then (and_then (write_bytes k ?off ?page w) (sync k ws))
                 (write_bytes k (j mod 16 * 32) ?hdr)) (sync k ws))"
    using s3
  proof (rule ends_and_then)
    fix w3 assume w3: "intact w3"
      "m_length w3 = m_length w
       \<and> content w3 = store (j mod 16 * 32) ?hdr (store ?off ?page (content w))"
    show "ends k (\<lambda>w'. m_length w' = m_length w
                       \<and> content w' = store (j mod 16 * 32) ?hdr (store ?off ?page (content w)))
            (sync k ws w3)"
      using ends_sync [OF w3(1), of k ws]
      by (rule ends_weaken) (simp add: w3(2))
  qed
  then show ?thesis
    unfolding slot_rewrite_def Let_def base .
qed

lemma slot_ok_written:
  assumes "idx < 16" "512 \<le> base" "base + 16 * PAGE_SIZE \<le> length c"
  shows "slot_ok (store (idx * 32) (header_bytes base idx ver)
                   (store (base + idx * PAGE_SIZE)
                      (memset_pattern16 (of_nat idx, of_nat ver) PAGE_SIZE) c))
           base idx ver"
proof -
  let ?page = "memset_pattern16 (of_nat idx, of_nat ver) PAGE_SIZE"
  let ?hdr = "header_bytes base idx ver"
  let ?c1 = "store (base + idx * PAGE_SIZE) ?page c"
  have pb: "base + idx * PAGE_SIZE + length ?page \<le> length c"
    using assms by (simp add: PAGE_SIZE_def)
  have len1: "length ?c1 = length c"
    using pb by simp
  have hb: "idx * 32 + length ?hdr \<le> length ?c1"
    unfolding len1 using assms by (simp add: PAGE_SIZE_def)
  have "take (length ?hdr) (drop (idx * 32) (store (idx * 32) ?hdr ?c1)) = ?hdr"
    using hb by (rule slice_store_same)
  then have h: "take 32 (drop (idx * 32) (store (idx * 32) ?hdr ?c1)) = ?hdr"
    by simp
  have "take PAGE_SIZE (drop (base + idx * PAGE_SIZE) (store (idx * 32) ?hdr ?c1))
          = take PAGE_SIZE (drop (base + idx * PAGE_SIZE) ?c1)"
    using hb
  proof (rule slice_store_other)
    show "base + idx * PAGE_SIZE + PAGE_SIZE \<le> length ?c1"
      unfolding len1 using pb by simp
    show "base + idx * PAGE_SIZE + PAGE_SIZE \<le> idx * 32
          \<or> idx * 32 + length ?hdr \<le> base + idx * PAGE_SIZE"
      using assms(1,2) by simp
  qed
  also have "\<dots> = ?page"
    using slice_store_same [OF pb] by simp
  finally show ?thesis
    using h by (simp add: slot_ok_def)
qed

lemma slot_ok_kept:
  assumes "idx < 16" "idx' < 16" "idx \<noteq> idx'" "512 \<le> base" "base + 16 * PAGE_SIZE \<le> length c"
    and "length hdr = 32" "length page = PAGE_SIZE"
    and "slot_ok c base idx ver"
  shows "slot_ok (store (idx' * 32) hdr (store (base + idx' * PAGE_SIZE) page c)) base idx ver"
proof -
  let ?c1 = "store (base + idx' * PAGE_SIZE) page c"
  let ?c2 = "store (idx' * 32) hdr ?c1"
  have pb: "base + idx' * PAGE_SIZE + length page \<le> length c"
    using assms(2,5,7) by (simp add: PAGE_SIZE_def)
  have len1: "length ?c1 = length c"
    using pb by simp
  have hb: "idx' * 32 + length hdr \<le> length ?c1"
    unfolding len1 using assms(2,4,5,6) by (simp add: PAGE_SIZE_def)
  have apart: "idx * 32 + 32 \<le> idx' * 32 \<or> idx' * 32 + 32 \<le> idx * 32"
    using assms(3) by linarith
  have papart: "base + idx * PAGE_SIZE + PAGE_SIZE \<le> base + idx' * PAGE_SIZE
                \<or> base + idx' * PAGE_SIZE + PAGE_SIZE \<le> base + idx * PAGE_SIZE"
    using assms(3) by (simp add: PAGE_SIZE_def) linarith
  have "take 32 (drop (idx * 32) ?c2) = take 32 (drop (idx * 32) ?c1)"
    using hb
  proof (rule slice_store_other)
    show "idx * 32 + 32 \<le> length ?c1"
      unfolding len1 using assms(1,4,5) by (simp add: PAGE_SIZE_def)
    show "idx * 32 + 32 \<le> idx' * 32 \<or> idx' * 32 + length hdr \<le> idx * 32"
      using apart by (simp add: assms(6))
  qed
  also have "\<dots> = take 32 (drop (idx * 32) c)"
    using pb
  proof (rule slice_store_other)
    show "idx * 32 + 32 \<le> length c"
      using assms(1,4,5) by (simp add: PAGE_SIZE_def)
    show "idx * 32 + 32 \<le> base + idx' * PAGE_SIZE
          \<or> base + idx' * PAGE_SIZE + length page \<le> idx * 32"
      using assms(1,4) by simp
  qed
  finally have h: "take 32 (drop (idx * 32) ?c2) = take 32 (drop (idx * 32) c)" .
  have "take PAGE_SIZE (drop (base + idx * PAGE_SIZE) ?c2)
          = take PAGE_SIZE (drop (base + idx * PAGE_SIZE) ?c1)"
    using hb
  proof (rule slice_store_other)
    show "base + idx * PAGE_SIZE + PAGE_SIZE \<le> length ?c1"
      unfolding len1 using assms(1,5) by (simp add: PAGE_SIZE_def)
    show "base + idx * PAGE_SIZE + PAGE_SIZE \<le> idx' * 32
          \<or> idx' * 32 + length hdr \<le> base + idx * PAGE_SIZE"
      using assms(2,4,6) by simp
  qed
  also have "\<dots> = take PAGE_SIZE (drop (base + idx * PAGE_SIZE) c)"
    using pb
  proof (rule slice_store_other)
    show "base + idx * PAGE_SIZE + PAGE_SIZE \<le> length c"
      using assms(1,5) by (simp add: PAGE_SIZE_def)
    show "base + idx * PAGE_SIZE + PAGE_SIZE \<le> base + idx' * PAGE_SIZE
          \<or> base + idx' * PAGE_SIZE + length page \<le> base + idx * PAGE_SIZE"
      using papart by (simp add: assms(7))
  qed
  finally show ?thesis
    using h assms(8) by (simp add: slot_ok_def)
qed

lemma mod16_apart:
  fixes j m :: nat
  assumes "j < m" "m < j + 16"
  shows "j mod 16 \<noteq> m mod 16"
proof
  assume "j mod 16 = m mod 16"
  then have "m mod 16 = j mod 16" by simp
  then have "16 dvd m - j"
    using assms(1) by (simp add: mod_eq_dvd_iff_nat)
  moreover have "0 < m - j" "m - j < 16"
    using assms by simp_all
  ultimately show False
    by (meson dvd_imp_le not_le)
qed

lemma last_round_index:
  fixes idx :: nat
  assumes "idx < 16"
  shows "(112 + idx) mod 16 = idx" and "(112 + idx) div 16 = 7"
proof -
  have "(112 + idx) mod 16 = (7 * 16 + idx) mod 16" by simp
  also have "\<dots> = idx mod 16" by (simp only: mod_mult_self3)
  finally show "(112 + idx) mod 16 = idx" using assms by simp
  show "(112 + idx) div 16 = 7" using assms by simp
qed

lemma ends_growth_step:
  assumes "intact w" "m_length w \<le> (16 * (i + 1) + 1) * PAGE_SIZE"
  shows "ends k (\<lambda>w'. m_length w' = (16 * (i + 1) + 1) * PAGE_SIZE
                   \<and> (\<forall>idx<16. slot_ok (content w') ((16 * i + 1) * PAGE_SIZE) idx 7))
           (growth_step k ws es i w)"
proof -
  let ?L = "(16 * (i + 1) + 1) * PAGE_SIZE"
  let ?base = "(16 * i + 1) * PAGE_SIZE"
  let ?I = "\<lambda>m w'. m_length w' = ?L
              \<and> (\<forall>j<m. m \<le> j + 16 \<longrightarrow> slot_ok (content w') ?base (j mod 16) (j div 16))"
  have pos: "0 < ?L" by (simp add: PAGE_SIZE_def)
  have base512: "512 \<le> ?base" by (simp add: PAGE_SIZE_def)
  have e1: "ends k (\<lambda>w'. m_length w' = ?L) (extend k ?L w)"
    using ends_extend [OF assms pos, of k] by (rule ends_weaken) simp
  have e2: "ends k (\<lambda>w'. m_length w' = ?L) (and_then (extend k ?L w) (sync k es))"
    using e1
  proof (rule ends_and_then)
    fix w1 assume w1: "intact w1" "m_length w1 = ?L"
    show "ends k (\<lambda>w'. m_length w' = ?L) (sync k es w1)"
      using ends_sync [OF w1(1), of k es] by (rule ends_weaken) (simp add: w1(2))
  qed
  have loop: "ends k (?I (length [0..<16 * 8])) (iterate (slot_rewrite k ws i) [0..<16 * 8] w2)"
    if w2: "intact w2" "m_length w2 = ?L" for w2
  proof (rule ends_iterate)
    show "intact w2" by (rule w2)
    show "?I 0 w2" using w2(2) by simp
  next
    fix m w' assume m: "m < length [0..<16 * 8]" and w': "intact w'" "?I m w'"
    have len: "length (content w') = ?L"
      using w' by (simp add: intact_def)
    have room: "?base + 16 * PAGE_SIZE \<le> length (content w')"
      by (simp add: len PAGE_SIZE_def)
    have nth: "[0..<16 * 8] ! m = m"
      using m by simp
    have "ends k (\<lambda>w''. m_length w'' = m_length w'
                   \<and> content w'' =
                       store (m mod 16 * 32) (header_bytes ?base (m mod 16) (m div 16))
                         (store (?base + m mod 16 * PAGE_SIZE)
                            (memset_pattern16 (of_nat (m mod 16), of_nat (m div 16)) PAGE_SIZE)
                            (content w')))
           (slot_rewrite k ws i m w')"
      using w'(1) by (rule ends_slot_rewrite) (simp add: w'(2))
    then show "ends k (?I (Suc m)) (slot_rewrite k ws i ([0..<16 * 8] ! m) w')"
      unfolding nth
    proof (rule ends_weaken)
      fix w'' assume w'': "m_length w'' = m_length w'
                   \<and> content w'' =
                       store (m mod 16 * 32) (header_bytes ?base (m mod 16) (m div 16))
                         (store (?base + m mod 16 * PAGE_SIZE)
                            (memset_pattern16 (of_nat (m mod 16), of_nat (m div 16)) PAGE_SIZE)
                            (content w'))"
      have "slot_ok (content w'') ?base (j mod 16) (j div 16)"
        if j: "j < Suc m" "Suc m \<le> j + 16" for j
      proof (cases "j = m")
        case True
        have "slot_ok (store (m mod 16 * 32) (header_bytes ?base (m mod 16) (m div 16))
                         (store (?base + m mod 16 * PAGE_SIZE)
                            (memset_pattern16 (of_nat (m mod 16), of_nat (m div 16)) PAGE_SIZE)
                            (content w'))) ?base (m mod 16) (m div 16)"
          using _ base512 room by (rule slot_ok_written) simp
        then show ?thesis
          using True w'' by simp
      next
        case False
        then have jm: "j < m" "m < j + 16" using j by simp_all
        then have old: "slot_ok (content w') ?base (j mod 16) (j div 16)"
          using w'(2) by simp
        have "slot_ok (store (m mod 16 * 32) (header_bytes ?base (m mod 16) (m div 16))
                         (store (?base + m mod 16 * PAGE_SIZE)
                            (memset_pattern16 (of_nat (m mod 16), of_nat (m div 16)) PAGE_SIZE)
                            (content w'))) ?base (j mod 16) (j div 16)"
        proof (rule slot_ok_kept)
          show "j mod 16 \<noteq> m mod 16" using jm by (rule mod16_apart)
        qed (use base512 room old in simp_all)
        then show ?thesis
          using w'' by simp
      qed
      then show "?I (Suc m) w''"
        using w'' w'(2) by simp
    qed
  qed
  have "ends k (?I (length [0..<16 * 8]))
          (and_then (and_then (extend k ?L w) (sync k es))
             (iterate (slot_rewrite k ws i) [0..<16 * 8]))"
    using e2 loop by (rule ends_and_then)
  then have "ends k (\<lambda>w'. m_length w' = ?L
                   \<and> (\<forall>idx<16. slot_ok (content w') ?base idx 7))
          (and_then (and_then (extend k ?L w) (sync k es))
             (iterate (slot_rewrite k ws i) [0..<16 * 8]))"
  proof (rule ends_weaken)
    fix w' assume I: "?I (length [0..<16 * 8]) w'"
    have "slot_ok (content w') ?base idx 7" if "idx < 16" for idx
    proof -
      have "slot_ok (content w') ?base ((112 + idx) mod 16) ((112 + idx) div 16)"
        using I that by simp
      then show ?thesis
        by (simp only: last_round_index [OF that])
    qed
    then show "m_length w' = ?L \<and> (\<forall>idx<16. slot_ok (content w') ?base idx 7)"
      using I by simp
  qed
  then show ?thesis
    by (simp add: growth_step_def Let_def)
qed

lemma ends_multi_slot_main:
  "ends k (multi_done n) (multi_slot_main k kind ws es n)"
proof -
  have run: "ends k (multi_done (length [0..<n])) (iterate (growth_step k ws es) [0..<n] w)"
    if w: "intact w" "m_length w = 0" for w
  proof (rule ends_iterate)
    show "intact w" by (rule w)
    show "multi_done 0 w" using w(2) by (simp add: multi_done_def multi_file_size_def)
  next
    fix m w' assume m: "m < length [0..<n]" and w': "intact w'" "multi_done m w'"
    have "m_length w' \<le> (16 * (m + 1) + 1) * PAGE_SIZE"
      using w'(2) by (simp add: multi_done_def multi_file_size_def PAGE_SIZE_def)
    with w'(1) have "ends k (\<lambda>w''. m_length w'' = (16 * (m + 1) + 1) * PAGE_SIZE
                   \<and> (\<forall>idx<16. slot_ok (content w'') ((16 * m + 1) * PAGE_SIZE) idx 7))
           (growth_step k ws es m w')"
      by (rule ends_growth_step)
    then have "ends k (multi_done (Suc m)) (growth_step k ws es m w')"
      by (rule ends_weaken) (simp add: multi_done_def multi_file_size_def)
    then show "ends k (multi_done (Suc m)) (growth_step k ws es ([0..<n] ! m) w')"
      using m by simp
  qed
  have "ends k (multi_done (length [0..<n]))
          (and_then (create k kind) (iterate (growth_step k ws es) [0..<n]))"
    using ends_create [of k kind]
  proof (rule ends_and_then)
    fix w assume "intact w" "m_length w = 0 \<and> strategy w = kind"
    then show "ends k (multi_done (length [0..<n])) (iterate (growth_step k ws es) [0..<n] w)"
      using run by simp
  qed
  then show ?thesis
    by (simp add: multi_slot_main_def)
qed

lemma same_handle_refl [simp]: "same_handle w w"
  by (simp add: same_handle_def)

lemma same_handle_trans: "same_handle a b \<Longrightarrow> same_handle b c \<Longrightarrow> same_handle a c"
  by (simp add: same_handle_def)

lemma barrier_calls_same: "same_handle w w' \<Longrightarrow> barrier_calls w' sts = barrier_calls w sts"
proof -
  assume h: "same_handle w w'"
  have "buffer w' = buffer w"
    using h by (simp add: buffer_def same_handle_def split: write_kind.splits)
  then have "barrier_call w' st = barrier_call w st" for st
    using h by (cases st) (simp_all add: barrier_call_def same_handle_def)
  then have "barrier_call w' = barrier_call w"
    by (rule ext)
  then show ?thesis by (simp add: barrier_calls_def)
qed

lemma write_call_same: "same_handle w w' \<Longrightarrow> write_call w' = write_call w"
  by (rule ext, rule ext) (simp add: write_call_def same_handle_def)

lemma body_calls_same: "same_handle w w' \<Longrightarrow> body_calls w' pc js = body_calls w pc js"
  by (simp add: body_calls_def write_call_same)

lemma ends_sync_fields:
  assumes "intact w"
  shows "ends k (\<lambda>w'. same_handle w w' \<and> content w' = content w
                   \<and> calls w' = calls w @ barrier_calls w sts)
           (sync k sts w)"
  using ends_sync [OF assms, of k sts]
  by (rule ends_weaken) (simp add: same_handle_def barrier_calls_def)

lemma ends_write_fields:
  assumes "intact w" "off + length d \<le> m_length w" "d \<noteq> []"
  shows "ends k (\<lambda>w'. same_handle w w' \<and> content w' = store off d (content w)
                   \<and> calls w' = calls w @ [write_call w off d])
           (write_bytes k off d w)"
  using ends_write_bytes [OF assms, of k]
  by (rule ends_weaken) (simp add: same_handle_def)

lemma ends_body_loop:
  assumes "intact w" "m_length w = pc * PAGE_SIZE"
  shows "ends k (\<lambda>w'. same_handle w w'
                   \<and> content w' = body_content pc (content w) [1..<pc]
                   \<and> calls w' = calls w @ body_calls w pc [1..<pc])
           (iterate (body_write k pc) [1..<pc] w)"
proof -
  define xs where "xs = [1..<pc]"
  let ?I = "\<lambda>m w'. same_handle w w'
                   \<and> content w' = body_content pc (content w) (take m xs)
                   \<and> calls w' = calls w @ body_calls w pc (take m xs)"
  have "ends k (?I (length xs)) (iterate (body_write k pc) xs w)"
  proof (rule ends_iterate)
    show "intact w" by (rule assms)
    show "?I 0 w" by (simp add: body_content_def body_calls_def)
  next
    fix m w' assume m: "m < length xs" and w': "intact w'" "?I m w'"
    define j where "j = xs ! m"
    have j: "1 \<le> j" "j < pc"
      using m by (simp_all add: j_def xs_def)
    have sh: "same_handle w w'" using w'(2) by simp
    have len: "m_length w' = pc * PAGE_SIZE"
      using sh assms(2) by (simp add: same_handle_def)
    have "(pc - j) + 1 \<le> pc" using j by simp
    then have "((pc - j) + 1) * PAGE_SIZE \<le> pc * PAGE_SIZE"
      by (rule mult_le_mono1)
    then have bound: "(pc - j) * PAGE_SIZE + length (memset_pattern8 (of_nat j) PAGE_SIZE)
                        \<le> m_length w'"
      by (simp add: len algebra_simps)
    have ne: "memset_pattern8 (of_nat j) PAGE_SIZE \<noteq> []"
      by (auto simp: PAGE_SIZE_def dest: arg_cong [where f = length])
    have "ends k (\<lambda>w''. same_handle w' w''
                   \<and> content w'' = store ((pc - j) * PAGE_SIZE)
                                      (memset_pattern8 (of_nat j) PAGE_SIZE) (content w')
                   \<and> calls w'' = calls w' @ [write_call w' ((pc - j) * PAGE_SIZE)
                                               (memset_pattern8 (of_nat j) PAGE_SIZE)])
           (write_bytes k ((pc - j) * PAGE_SIZE) (memset_pattern8 (of_nat j) PAGE_SIZE) w')"
      using w'(1) bound ne by (rule ends_write_fields)
    then show "ends k (?I (Suc m)) (body_write k pc (xs ! m) w')"
      unfolding body_write_def j_def [symmetric]
    proof (rule ends_weaken)
      fix w'' assume w'': "same_handle w' w''
                   \<and> content w'' = store ((pc - j) * PAGE_SIZE)
                                      (memset_pattern8 (of_nat j) PAGE_SIZE) (content w')
                   \<and> calls w'' = calls w' @ [write_call w' ((pc - j) * PAGE_SIZE)
                                               (memset_pattern8 (of_nat j) PAGE_SIZE)]"
      have t: "take (Suc m) xs = take m xs @ [j]"
        unfolding j_def using m by (rule take_Suc_conv_app_nth)
      have "same_handle w w''"
        using sh w'' by (blast intro: same_handle_trans)
      moreover have "content w'' = body_content pc (content w) (take (Suc m) xs)"
        using w'' w'(2) by (simp add: t body_content_def)
      moreover have "calls w'' = calls w @ body_calls w pc (take (Suc m) xs)"
        using w'' w'(2) by (simp add: t body_calls_def write_call_same [OF sh])
      ultimately show "?I (Suc m) w''" by simp
    qed
  qed
  then show ?thesis by (simp add: xs_def)
qed

lemma ends_extend_handle:
  assumes "intact w" "m_length w \<le> len" "0 < len"
  shows "ends k (\<lambda>w'. same_handle
                        (w\<lparr>m_length := len,
                           m_buffer := (case strategy w of MMapWrite \<Rightarrow> Some len
                                        | PWriteWrite \<Rightarrow> m_buffer w)\<rparr>) w'
                   \<and> content w' = resize len (content w)
                   \<and> calls w' = calls w @ extend_calls w len)
           (extend k len w)"
  using ends_extend [OF assms, of k]
  by (rule ends_weaken) (simp add: same_handle_def)

lemma ends_transaction:
  assumes "intact w" "m_length w \<le> (10 + i * 10) * PAGE_SIZE"
  shows "ends k (\<lambda>w'. strategy w' = strategy w
                   \<and> m_length w' = (10 + i * 10) * PAGE_SIZE
                   \<and> content w' =
                       store 0 (memset_pattern8 (of_nat ((10 + i * 10) * PAGE_SIZE)) PAGE_SIZE)
                         (body_content (10 + i * 10)
                            (resize ((10 + i * 10) * PAGE_SIZE) (content w)) [1..<10 + i * 10])
                   \<and> calls w' =
                       calls w @ extend_calls w ((10 + i * 10) * PAGE_SIZE)
                       @ barrier_calls w' es
                       @ body_calls w' (10 + i * 10) [1..<10 + i * 10]
                       @ barrier_calls w' ws
                       @ [write_call w' 0
                            (memset_pattern8 (of_nat ((10 + i * 10) * PAGE_SIZE)) PAGE_SIZE)]
                       @ barrier_calls w' ws)
           (transaction k ws es i w)"
proof -
  define pc where "pc = 10 + i * 10"
  define fs where "fs = pc * PAGE_SIZE"
  define hdr where "hdr = memset_pattern8 (of_nat fs) PAGE_SIZE"
  define wr where "wr = w\<lparr>m_length := fs,
                           m_buffer := (case strategy w of MMapWrite \<Rightarrow> Some fs
                                        | PWriteWrite \<Rightarrow> m_buffer w)\<rparr>"
  define c0 where "c0 = resize fs (content w)"
  define X where "X = calls w @ extend_calls w fs"
  have fs_pos: "0 < fs" by (simp add: fs_def pc_def PAGE_SIZE_def)
  have le: "m_length w \<le> fs" using assms(2) by (simp add: fs_def pc_def)
  have wr_len: "m_length wr = fs" by (simp add: wr_def)
  have hdr_len: "length hdr = PAGE_SIZE" by (simp add: hdr_def)
  have hdr_ne: "hdr \<noteq> []" using hdr_len by (auto simp: PAGE_SIZE_def)
  have hdr_fit: "0 + length hdr \<le> fs" by (simp add: hdr_len fs_def pc_def)
  have e1: "ends k (\<lambda>w'. same_handle wr w' \<and> content w' = c0 \<and> calls w' = X)
              (extend k fs w)"
    unfolding wr_def c0_def X_def using assms(1) le fs_pos by (rule ends_extend_handle)
  have e2: "ends k (\<lambda>w'. same_handle wr w' \<and> content w' = c0
                       \<and> calls w' = X @ barrier_calls wr es)
              (and_then (extend k fs w) (sync k es))"
    using e1
  proof (rule ends_and_then)
    fix w1 assume w1: "intact w1" "same_handle wr w1 \<and> content w1 = c0 \<and> calls w1 = X"
    show "ends k (\<lambda>w'. same_handle wr w' \<and> content w' = c0
                       \<and> calls w' = X @ barrier_calls wr es) (sync k es w1)"
      using ends_sync_fields [OF w1(1), of k es]
    proof (rule ends_weaken)
      fix w' assume "same_handle w1 w' \<and> content w' = content w1
                       \<and> calls w' = calls w1 @ barrier_calls w1 es"
      then show "same_handle wr w' \<and> content w' = c0 \<and> calls w' = X @ barrier_calls wr es"
        using w1(2) by (auto intro: same_handle_trans simp: barrier_calls_same)
    qed
  qed
  have e3: "ends k (\<lambda>w'. same_handle wr w' \<and> content w' = body_content pc c0 [1..<pc]
                       \<and> calls w' = X @ barrier_calls wr es @ body_calls wr pc [1..<pc])
              (and_then (and_then (extend k fs w) (sync k es))
                 (iterate (body_write k pc) [1..<pc]))"
    using e2
  proof (rule ends_and_then)
    fix w2 assume w2: "intact w2"
      "same_handle wr w2 \<and> content w2 = c0 \<and> calls w2 = X @ barrier_calls wr es"
    have "m_length w2 = pc * PAGE_SIZE"
      using w2(2) wr_len by (simp add: same_handle_def fs_def)
    with w2(1) have "ends k (\<lambda>w'. same_handle w2 w'
                   \<and> content w' = body_content pc (content w2) [1..<pc]
                   \<and> calls w' = calls w2 @ body_calls w2 pc [1..<pc])
           (iterate (body_write k pc) [1..<pc] w2)"
      by (rule ends_body_loop)
    then show "ends k (\<lambda>w'. same_handle wr w' \<and> content w' = body_content pc c0 [1..<pc]
                       \<and> calls w' = X @ barrier_calls wr es @ body_calls wr pc [1..<pc])
              (iterate (body_write k pc) [1..<pc] w2)"
    proof (rule ends_weaken)
      fix w' assume "same_handle w2 w'
                   \<and> content w' = body_content pc (content w2) [1..<pc]
                   \<and> calls w' = calls w2 @ body_calls w2 pc [1..<pc]"
      then show "same_handle wr w' \<and> content w' = body_content pc c0 [1..<pc]
                       \<and> calls w' = X @ barrier_calls wr es @ body_calls wr pc [1..<pc]"
        using w2(2) by (auto intro: same_handle_trans simp: body_calls_same)
    qed
  qed
  have e4: "ends k (\<lambda>w'. same_handle wr w' \<and> content w' = body_content pc c0 [1..<pc]
                       \<and> calls w' = X @ barrier_calls wr es @ body_calls wr pc [1..<pc]
                                      @ barrier_calls wr ws)
              (and_then (and_then (and_then (extend k fs w) (sync k es))
                 (iterate (body_write k pc) [1..<pc])) (sync k ws))"
    using e3
  proof (rule ends_and_then)
    fix w3 assume w3: "intact w3"
      "same_handle wr w3 \<and> content w3 = body_content pc c0 [1..<pc]
         \<and> calls w3 = X @ barrier_calls wr es @ body_calls wr pc [1..<pc]"
    show "ends k (\<lambda>w'. same_handle wr w' \<and> content w' = body_content pc c0 [1..<pc]
                       \<and> calls w' = X @ barrier_calls wr es @ body_calls wr pc [1..<pc]
                                      @ barrier_calls wr ws) (sync k ws w3)"
      using ends_sync_fields [OF w3(1), of k ws]
    proof (rule ends_weaken)
      fix w' assume "same_handle w3 w' \<and> content w' = content w3
                       \<and> calls w' = calls w3 @ barrier_calls w3 ws"
      then show "same_handle wr w' \<and> content w' = body_content pc c0 [1..<pc]
                       \<and> calls w' = X @ barrier_calls wr es @ body_calls wr pc [1..<pc]
                                      @ barrier_calls wr ws"
        using w3(2) by (auto intro: same_handle_trans simp: barrier_calls_same)
    qed
  qed
  have e5: "ends k (\<lambda>w'. same_handle wr w'
                       \<and> content w' = store 0 hdr (body_content pc c0 [1..<pc])
                       \<and> calls w' = X @ barrier_calls wr es @ body_calls wr pc [1..<pc]
                                      @ barrier_calls wr ws @ [write_call wr 0 hdr])
              (and_then (and_then (and_then (and_then (extend k fs w) (sync k es))
                 (iterate (body_write k pc) [1..<pc])) (sync k ws)) (write_bytes k 0 hdr))"
    using e4
  proof (rule ends_and_then)
    fix w4 assume w4: "intact w4"
      "same_handle wr w4 \<and> content w4 = body_content pc c0 [1..<pc]
         \<and> calls w4 = X @ barrier_calls wr es @ body_calls wr pc [1..<pc]
                        @ barrier_calls wr ws"
    have "0 + length hdr \<le> m_length w4"
      using hdr_fit w4(2) wr_len by (simp add: same_handle_def)
    with w4(1) have "ends k (\<lambda>w'. same_handle w4 w' \<and> content w' = store 0 hdr (content w4)
                   \<and> calls w' = calls w4 @ [write_call w4 0 hdr])
           (write_bytes k 0 hdr w4)"
      using hdr_ne by (rule ends_write_fields)
    then show "ends k (\<lambda>w'. same_handle wr w'
                       \<and> content w' = store 0 hdr (body_content pc c0 [1..<pc])
                       \<and> calls w' = X @ barrier_calls wr es @ body_calls wr pc [1..<pc]
                                      @ barrier_calls wr ws @ [write_call wr 0 hdr])
              (write_bytes k 0 hdr w4)"
    proof (rule ends_weaken)
      fix w' assume "same_handle w4 w' \<and> content w' = store 0 hdr (content w4)
                   \<and> calls w' = calls w4 @ [write_call w4 0 hdr]"
      then show "same_handle wr w'
                       \<and> content w' = store 0 hdr (body_content pc c0 [1..<pc])
                       \<and> calls w' = X @ barrier_calls wr es @ body_calls wr pc [1..<pc]
                                      @ barrier_calls wr ws @ [write_call wr 0 hdr]"
        using w4(2) by (auto intro: same_handle_trans simp: write_call_same)
    qed
  qed
  have e6: "ends k (\<lambda>w'. same_handle wr w'
                       \<and> content w' = store 0 hdr (body_content pc c0 [1..<pc])
                       \<and> calls w' = X @ barrier_calls wr es @ body_calls wr pc [1..<pc]
                                      @ barrier_calls wr ws @ [write_call wr 0 hdr]
                                      @ barrier_calls wr ws)
              (and_then (and_then (and_then (and_then (and_then (extend k fs w) (sync k es))
                 (iterate (body_write k pc) [1..<pc])) (sync k ws)) (write_bytes k 0 hdr))
                 (sync k ws))"
    using e5
  proof (rule ends_and_then)
    fix w5 assume w5: "intact w5"
      "same_handle wr w5
         \<and> content w5 = store 0 hdr (body_content pc c0 [1..<pc])
         \<and> calls w5 = X @ barrier_calls wr es @ body_calls wr pc [1..<pc]
                        @ barrier_calls wr ws @ [write_call wr 0 hdr]"
    show "ends k (\<lambda>w'. same_handle wr w'
                       \<and> content w' = store 0 hdr (body_content pc c0 [1..<pc])
                       \<and> calls w' = X @ barrier_calls wr es @ body_calls wr pc [1..<pc]
                                      @ barrier_calls wr ws @ [write_call wr 0 hdr]
                                      @ barrier_calls wr ws) (sync k ws w5)"
      using ends_sync_fields [OF w5(1), of k ws]
    proof (rule ends_weaken)
      fix w' assume "same_handle w5 w' \<and> content w' = content w5
                       \<and> calls w' = calls w5 @ barrier_calls w5 ws"
      then show "same_handle wr w'
                       \<and> content w' = store 0 hdr (body_content pc c0 [1..<pc])
                       \<and> calls w' = X @ barrier_calls wr es @ body_calls wr pc [1..<pc]
                                      @ barrier_calls wr ws @ [write_call wr 0 hdr]
                                      @ barrier_calls wr ws"
        using w5(2) by (auto intro: same_handle_trans simp: barrier_calls_same)
    qed
  qed
  have "ends k (\<lambda>w'. strategy w' = strategy w
                   \<and> m_length w' = fs
                   \<and> content w' = store 0 hdr (body_content pc c0 [1..<pc])
                   \<and> calls w' = X @ barrier_calls w' es @ body_calls w' pc [1..<pc]
                                  @ barrier_calls w' ws @ [write_call w' 0 hdr]
                                  @ barrier_calls w' ws)
          (transaction k ws es i w)"
    unfolding transaction_def Let_def pc_def [symmetric] fs_def [symmetric] hdr_def [symmetric]
    using e6
  proof (rule ends_weaken)
    fix w' assume w': "same_handle wr w'
                       \<and> content w' = store 0 hdr (body_content pc c0 [1..<pc])
                       \<and> calls w' = X @ barrier_calls wr es @ body_calls wr pc [1..<pc]
                                      @ barrier_calls wr ws @ [write_call wr 0 hdr]
                                      @ barrier_calls wr ws"
    then have sh: "same_handle wr w'" by simp
    have "strategy w' = strategy w" "m_length w' = fs"
      using sh by (simp_all add: same_handle_def wr_def)
    then show "strategy w' = strategy w
                   \<and> m_length w' = fs
                   \<and> content w' = store 0 hdr (body_content pc c0 [1..<pc])
                   \<and> calls w' = X @ barrier_calls w' es @ body_calls w' pc [1..<pc]
                                  @ barrier_calls w' ws @ [write_call w' 0 hdr]
                                  @ barrier_calls w' ws"
      using w' by (simp add: barrier_calls_same [OF sh] body_calls_same [OF sh]
                     write_call_same [OF sh])
  qed
  then show ?thesis
    by (simp add: X_def c0_def hdr_def fs_def pc_def)
qed

lemma page_fits:
  fixes p pc :: nat
  assumes "p < pc"
  shows "p * PAGE_SIZE + PAGE_SIZE \<le> pc * PAGE_SIZE"
proof -
  have "(p + 1) * PAGE_SIZE \<le> pc * PAGE_SIZE"
    using assms by (intro mult_le_mono1) simp
  then show ?thesis by (simp add: algebra_simps)
qed

lemma pages_apart:
  fixes p q :: nat
  assumes "p \<noteq> q"
  shows "p * PAGE_SIZE + PAGE_SIZE \<le> q * PAGE_SIZE \<or> q * PAGE_SIZE + PAGE_SIZE \<le> p * PAGE_SIZE"
proof (cases "p < q")
  case True
  then show ?thesis using page_fits by blast
next
  case False
  then have "q < p" using assms by simp
  then show ?thesis using page_fits by blast
qed

lemma body_content_snoc:
  "body_content pc c (js @ [x]) =
     store ((pc - x) * PAGE_SIZE) (memset_pattern8 (of_nat x) PAGE_SIZE) (body_content pc c js)"
  by (simp add: body_content_def)

lemma body_content_pages:
  assumes "length c = pc * PAGE_SIZE" "\<forall>j\<in>set js. 1 \<le> j \<and> j < pc"
  shows "length (body_content pc c js) = pc * PAGE_SIZE
       \<and> (\<forall>j\<in>set js. take PAGE_SIZE (drop ((pc - j) * PAGE_SIZE) (body_content pc c js))
                          = memset_pattern8 (of_nat j) PAGE_SIZE)"
  using assms(2)
proof (induction js rule: rev_induct)
  case Nil
  then show ?case by (simp add: body_content_def assms(1))
next
  case (snoc x js)
  let ?c = "body_content pc c js"
  let ?d = "memset_pattern8 (of_nat x) PAGE_SIZE"
  have x: "1 \<le> x" "x < pc" using snoc.prems by simp_all
  have IH: "length ?c = pc * PAGE_SIZE"
    "\<And>j. j \<in> set js \<Longrightarrow> take PAGE_SIZE (drop ((pc - j) * PAGE_SIZE) ?c)
                             = memset_pattern8 (of_nat j) PAGE_SIZE"
    using snoc.IH snoc.prems by simp_all
  have "pc - x < pc" using x by simp
  then have fit: "(pc - x) * PAGE_SIZE + length ?d \<le> length ?c"
    using page_fits [of "pc - x" pc] by (simp add: IH(1))
  have len: "length (store ((pc - x) * PAGE_SIZE) ?d ?c) = pc * PAGE_SIZE"
    using fit by (simp add: IH(1))
  have same: "take PAGE_SIZE (drop ((pc - x) * PAGE_SIZE) (store ((pc - x) * PAGE_SIZE) ?d ?c)) = ?d"
    using slice_store_same [OF fit] by simp
  have other: "take PAGE_SIZE (drop ((pc - j) * PAGE_SIZE) (store ((pc - x) * PAGE_SIZE) ?d ?c))
                 = memset_pattern8 (of_nat j) PAGE_SIZE"
    if j: "j \<in> set js" "j \<noteq> x" for j
  proof -
    have jb: "1 \<le> j" "j < pc" using snoc.prems j(1) by simp_all
    then have ne: "pc - j \<noteq> pc - x" using x j(2) by simp
    have "pc - j < pc" using jb by simp
    then have jfit: "(pc - j) * PAGE_SIZE + PAGE_SIZE \<le> length ?c"
      using page_fits [of "pc - j" pc] by (simp add: IH(1))
    have "take PAGE_SIZE (drop ((pc - j) * PAGE_SIZE) (store ((pc - x) * PAGE_SIZE) ?d ?c))
            = take PAGE_SIZE (drop ((pc - j) * PAGE_SIZE) ?c)"
      using fit jfit
    proof (rule slice_store_other)
      show "(pc - j) * PAGE_SIZE + PAGE_SIZE \<le> (pc - x) * PAGE_SIZE
            \<or> (pc - x) * PAGE_SIZE + length ?d \<le> (pc - j) * PAGE_SIZE"
        using pages_apart [OF ne] by simp
    qed
    then show ?thesis using IH(2) [OF j(1)] by simp
  qed
  show ?case
    unfolding body_content_snoc using len same other by auto
qed

lemma single_ok_transaction:
  assumes "length c = pc * PAGE_SIZE" "0 < pc"
  shows "single_ok (store 0 (memset_pattern8 (of_nat (pc * PAGE_SIZE)) PAGE_SIZE)
                      (body_content pc c [1..<pc])) pc"
proof -
  define b where "b = body_content pc c [1..<pc]"
  let ?hdr = "memset_pattern8 (of_nat (pc * PAGE_SIZE)) PAGE_SIZE"
  have b: "length b = pc * PAGE_SIZE"
    "\<And>j. 1 \<le> j \<Longrightarrow> j < pc \<Longrightarrow>
       take PAGE_SIZE (drop ((pc - j) * PAGE_SIZE) b) = memset_pattern8 (of_nat j) PAGE_SIZE"
    using body_content_pages [OF assms(1), of "[1..<pc]"] by (simp_all add: b_def)
  have fit: "0 + length ?hdr \<le> length b"
    using page_fits [of 0 pc] assms(2) by (simp add: b(1))
  have len: "length (store 0 ?hdr b) = pc * PAGE_SIZE"
    using fit by (simp add: b(1))
  have "take (length ?hdr) (drop 0 (store 0 ?hdr b)) = ?hdr"
    using fit by (rule slice_store_same)
  then have hd: "take PAGE_SIZE (store 0 ?hdr b) = ?hdr"
    by simp
  have body: "take PAGE_SIZE (drop ((pc - j) * PAGE_SIZE) (store 0 ?hdr b))
                = memset_pattern8 (of_nat j) PAGE_SIZE"
    if j: "1 \<le> j" "j < pc" for j
  proof -
    have "pc - j < pc" using j by simp
    then have jfit: "(pc - j) * PAGE_SIZE + PAGE_SIZE \<le> length b"
      using page_fits [of "pc - j" pc] by (simp add: b(1))
    have "0 < pc - j" using j by simp
    then have "0 * PAGE_SIZE + PAGE_SIZE \<le> (pc - j) * PAGE_SIZE"
      by (intro page_fits)
    then have "(pc - j) * PAGE_SIZE + PAGE_SIZE \<le> 0 \<or> 0 + length ?hdr \<le> (pc - j) * PAGE_SIZE"
      by simp
    with fit jfit have "take PAGE_SIZE (drop ((pc - j) * PAGE_SIZE) (store 0 ?hdr b))
            = take PAGE_SIZE (drop ((pc - j) * PAGE_SIZE) b)"
      by (rule slice_store_other)
    then show ?thesis using b(2) [OF j] by simp
  qed
  show ?thesis
    unfolding b_def [symmetric] using len hd body by (simp add: single_ok_def)
qed

lemma ends_single_header_main:
  "ends k (single_done n) (single_header_main k kind ws es n)"
proof -
  have run: "ends k (single_done (length [0..<n])) (iterate (transaction k ws es) [0..<n] w)"
    if w: "intact w" "m_length w = 0" for w
  proof (rule ends_iterate)
    show "intact w" by (rule w)
    show "single_done 0 w" using w(2) by (simp add: single_done_def single_file_size_def)
  next
    fix m w' assume m: "m < length [0..<n]" and w': "intact w'" "single_done m w'"
    have le: "m_length w' \<le> (10 + m * 10) * PAGE_SIZE"
      using w'(2) by (simp add: single_done_def single_file_size_def PAGE_SIZE_def)
    have "ends k (single_done (Suc m)) (transaction k ws es m w')"
      using ends_transaction [OF w'(1) le, of k es ws]
    proof (rule ends_weaken)
      fix w'' assume "intact w''"
      assume w'': "strategy w'' = strategy w'
                   \<and> m_length w'' = (10 + m * 10) * PAGE_SIZE
                   \<and> content w'' =
                       store 0 (memset_pattern8 (of_nat ((10 + m * 10) * PAGE_SIZE)) PAGE_SIZE)
                         (body_content (10 + m * 10)
                            (resize ((10 + m * 10) * PAGE_SIZE) (content w')) [1..<10 + m * 10])
                   \<and> calls w'' =
                       calls w' @ extend_calls w' ((10 + m * 10) * PAGE_SIZE)
                       @ barrier_calls w'' es
                       @ body_calls w'' (10 + m * 10) [1..<10 + m * 10]
                       @ barrier_calls w'' ws
                       @ [write_call w'' 0
                            (memset_pattern8 (of_nat ((10 + m * 10) * PAGE_SIZE)) PAGE_SIZE)]
                       @ barrier_calls w'' ws"
      have "single_ok (content w'') (10 + m * 10)"
        using single_ok_transaction [of "resize ((10 + m * 10) * PAGE_SIZE) (content w')" "10 + m * 10"]
              w''
        by simp
      then show "single_done (Suc m) w''"
        using w'' by (simp add: single_done_def single_file_size_def)
    qed
    then show "ends k (single_done (Suc m)) (transaction k ws es ([0..<n] ! m) w')"
      using m by simp
  qed
  have "ends k (single_done (length [0..<n]))
          (and_then (create k kind) (iterate (transaction k ws es) [0..<n]))"
    using ends_create [of k kind]
  proof (rule ends_and_then)
    fix w assume "intact w" "m_length w = 0 \<and> strategy w = kind"
    then show "ends k (single_done (length [0..<n])) (iterate (transaction k ws es) [0..<n] w)"
      using run by simp
  qed
  then show ?thesis
    by (simp add: single_header_main_def)
qed

section \<open>The simulators' runs\<close>

lemma ends_final:
  assumes "ends k P r"
  shows "trace_ok (final r)"
    and "failure r = None \<or> failure r = Some SystemError"
  using assms by (cases r; auto simp: ends_def final_def failure_def intact_def)+

lemma ends_returned:
  assumes "ends k P r" "r = Inr w"
  shows "intact w" "P w"
  using assms by (simp_all add: ends_def)

lemma ends_total:
  assumes "ends k P r" "\<And>h c. k h c"
  shows "\<exists>w. r = Inr w \<and> intact w \<and> P w"
  using assms by (cases r) (auto simp: ends_def)

lemma and_then_Inr_right [simp]: "and_then r Inr = r"
  by (cases r) simp_all

lemma iterate_snoc:
  "iterate body (xs @ [x]) w = and_then (iterate body xs w) (body x)"
proof -
  have "iterate body [] = Inr"
    by (rule ext) simp
  then have "iterate body [x] = body x"
    by (intro ext) simp
  then show ?thesis
    by (simp add: iterate_append)
qed

lemma multi_slot_main_Suc:
  "multi_slot_main k kind ws es (Suc n)
     = and_then (multi_slot_main k kind ws es n) (growth_step k ws es n)"
proof -
  have "iterate (growth_step k ws es) [0..<Suc n]
          = (\<lambda>w. and_then (iterate (growth_step k ws es) [0..<n] w) (growth_step k ws es n))"
    by (rule ext) (simp add: iterate_snoc)
  then show ?thesis
    by (simp add: multi_slot_main_def and_then_assoc)
qed

lemma single_header_main_Suc:
  "single_header_main k kind ws es (Suc n)
     = and_then (single_header_main k kind ws es n) (transaction k ws es n)"
proof -
  have "iterate (transaction k ws es) [0..<Suc n]
          = (\<lambda>w. and_then (iterate (transaction k ws es) [0..<n] w) (transaction k ws es n))"
    by (rule ext) (simp add: iterate_snoc)
  then show ?thesis
    by (simp add: single_header_main_def and_then_assoc)
qed

lemma multi_file_size_mono: "i \<le> j \<Longrightarrow> multi_file_size i \<le> multi_file_size j"
  by (auto simp: multi_file_size_def)

lemma single_file_size_mono: "i \<le> j \<Longrightarrow> single_file_size i \<le> single_file_size j"
  by (auto simp: single_file_size_def)

text \<open>
  C9. In every run of either policy, completed or stopped by a refused call, no
  \<open>ftruncate\<close> of the trace asks for less than the length before it. After \<open>n\<close>
  completed transactions the length is \<open>multi_file_size n\<close> (\<open>16 * n + 1\<close> pages), or
  \<open>single_file_size n\<close> (\<open>10 * n\<close> pages), so the length after fewer transactions is at
  most the length after more.
\<close>

theorem lengths_never_decrease:
  "never_truncates 0 (calls (final (multi_slot_main k kind ws es n)))
   \<and> never_truncates 0 (calls (final (single_header_main k kind ws es n)))
   \<and> (multi_slot_main k kind ws es i = Inr wi \<and> multi_slot_main k kind ws es j = Inr wj
        \<and> i \<le> j
      \<longrightarrow> m_length wi = multi_file_size i \<and> m_length wj = multi_file_size j
          \<and> m_length wi \<le> m_length wj)
   \<and> (single_header_main k kind ws es i = Inr vi \<and> single_header_main k kind ws es j = Inr vj
        \<and> i \<le> j
      \<longrightarrow> m_length vi = single_file_size i \<and> m_length vj = single_file_size j
          \<and> m_length vi \<le> m_length vj)"
proof -
  have a: "never_truncates 0 (calls (final (multi_slot_main k kind ws es n)))"
    using ends_final(1) [OF ends_multi_slot_main] by (simp add: trace_ok_def)
  have b: "never_truncates 0 (calls (final (single_header_main k kind ws es n)))"
    using ends_final(1) [OF ends_single_header_main] by (simp add: trace_ok_def)
  have c: "m_length w = multi_file_size m" if "multi_slot_main k kind ws es m = Inr w" for m w
    using ends_returned(2) [OF ends_multi_slot_main that] by (simp add: multi_done_def)
  have d: "m_length w = single_file_size m" if "single_header_main k kind ws es m = Inr w" for m w
    using ends_returned(2) [OF ends_single_header_main that] by (simp add: single_done_def)
  show ?thesis
    using a b c d multi_file_size_mono single_file_size_mono by auto
qed

theorem lengths_never_decrease_witness:
  "\<exists>wi wj vi vj.
     multi_slot_main willing MMapWrite [MSync, FullFSync] [FullFSync] 1 = Inr wi
   \<and> multi_slot_main willing MMapWrite [MSync, FullFSync] [FullFSync] 2 = Inr wj
   \<and> m_length wi = 17 * PAGE_SIZE \<and> m_length wj = 33 * PAGE_SIZE
   \<and> single_header_main willing PWriteWrite [FSync] [FSync] 1 = Inr vi
   \<and> single_header_main willing PWriteWrite [FSync] [FSync] 2 = Inr vj
   \<and> m_length vi = 10 * PAGE_SIZE \<and> m_length vj = 20 * PAGE_SIZE"
proof -
  have w: "\<And>h c. willing h c" by (simp add: willing_def)
  obtain wi where wi: "multi_slot_main willing MMapWrite [MSync, FullFSync] [FullFSync] 1 = Inr wi"
    using ends_total [OF ends_multi_slot_main [of willing] w] by blast
  obtain wj where wj: "multi_slot_main willing MMapWrite [MSync, FullFSync] [FullFSync] 2 = Inr wj"
    using ends_total [OF ends_multi_slot_main [of willing] w] by blast
  obtain vi where vi: "single_header_main willing PWriteWrite [FSync] [FSync] 1 = Inr vi"
    using ends_total [OF ends_single_header_main [of willing] w] by blast
  obtain vj where vj: "single_header_main willing PWriteWrite [FSync] [FSync] 2 = Inr vj"
    using ends_total [OF ends_single_header_main [of willing] w] by blast
  have "m_length wi = 17 * PAGE_SIZE \<and> m_length wj = 33 * PAGE_SIZE
      \<and> m_length vi = 10 * PAGE_SIZE \<and> m_length vj = 20 * PAGE_SIZE"
    using lengths_never_decrease [of willing MMapWrite "[MSync, FullFSync]" "[FullFSync]" 0 1 wi 2 wj
                                     vi vj]
          lengths_never_decrease [of willing PWriteWrite "[FSync]" "[FSync]" 0 1 vi 2 vj vi vj]
          wi wj vi vj
    by (simp add: multi_file_size_def single_file_size_def)
  with wi wj vi vj show ?thesis by blast
qed

text \<open>
  C10. In every run of either policy, completed or stopped by a refused call, every
  \<open>pwrite\<close> and every store into the mapping ends inside the length set by the most
  recent \<open>ftruncate\<close>; the run never ends in the assertion of
  \<open>MMapWriteStrategy::write\<close> nor in a store outside the mapping.
\<close>

theorem writes_stay_in_bounds:
  "writes_in_bounds 0 (calls (final (multi_slot_main k kind ws es n)))
   \<and> failure (multi_slot_main k kind ws es n) \<noteq> Some AssertionFailed
   \<and> failure (multi_slot_main k kind ws es n) \<noteq> Some MemoryFault
   \<and> writes_in_bounds 0 (calls (final (single_header_main k kind ws es n)))
   \<and> failure (single_header_main k kind ws es n) \<noteq> Some AssertionFailed
   \<and> failure (single_header_main k kind ws es n) \<noteq> Some MemoryFault"
  using ends_final [OF ends_multi_slot_main [of k n kind ws es]]
        ends_final [OF ends_single_header_main [of k n kind ws es]]
  by (auto simp: trace_ok_def)

theorem writes_stay_in_bounds_witness:
  "writes_in_bounds 0
     (calls (final (multi_slot_main willing MMapWrite [MSync, FullFSync] [FullFSync] 1024)))
   \<and> failure (multi_slot_main willing MMapWrite [MSync, FullFSync] [FullFSync] 1024) = None
   \<and> writes_in_bounds 0
     (calls (final (single_header_main willing MMapWrite [MSync, FullFSync] [FullFSync] 1024)))
   \<and> failure (single_header_main willing MMapWrite [MSync, FullFSync] [FullFSync] 1024) = None"
proof -
  have w: "\<And>h c. willing h c" by (simp add: willing_def)
  obtain a where a: "multi_slot_main willing MMapWrite [MSync, FullFSync] [FullFSync] 1024 = Inr a"
    using ends_total [OF ends_multi_slot_main [of willing] w] by blast
  obtain b where b: "single_header_main willing MMapWrite [MSync, FullFSync] [FullFSync] 1024 = Inr b"
    using ends_total [OF ends_single_header_main [of willing] w] by blast
  show ?thesis
    using writes_stay_in_bounds [of willing MMapWrite "[MSync, FullFSync]" "[FullFSync]" 1024]
    by (simp add: a b failure_def)
qed

lemma memset_pattern8_inj:
  assumes "memset_pattern8 a PAGE_SIZE = memset_pattern8 b PAGE_SIZE"
  shows "a = b"
proof -
  have "take 8 (memset_pattern (to_bytes a) PAGE_SIZE) = take 8 (memset_pattern (to_bytes b) PAGE_SIZE)"
    using assms by (simp add: memset_pattern8_def)
  then have "to_bytes a = to_bytes b"
    using take_memset_pattern [of 8 "to_bytes a" PAGE_SIZE]
          take_memset_pattern [of 8 "to_bytes b" PAGE_SIZE]
    by (simp add: PAGE_SIZE_def)
  then have "from_bytes (to_bytes a) = from_bytes (to_bytes b)"
    by simp
  then show ?thesis by simp
qed

lemma transaction_effect:
  assumes "single_header_main k kind ws es i = Inr w" and "transaction k ws es i w = Inr w'"
  shows "m_length w' = (10 + 10 * i) * PAGE_SIZE"
    and "length (content w') = (10 + 10 * i) * PAGE_SIZE"
    and "calls w' =
           calls w @ extend_calls w ((10 + 10 * i) * PAGE_SIZE)
           @ barrier_calls w' es
           @ body_calls w' (10 + 10 * i) [1..<10 + 10 * i]
           @ barrier_calls w' ws
           @ [write_call w' 0 (memset_pattern8 (of_nat ((10 + 10 * i) * PAGE_SIZE)) PAGE_SIZE)]
           @ barrier_calls w' ws"
    and "single_ok (content w') (10 + 10 * i)"
proof -
  have w: "intact w" "single_done i w"
    using ends_returned [OF ends_single_header_main assms(1)] by simp_all
  have le: "m_length w \<le> (10 + i * 10) * PAGE_SIZE"
    using w(2) by (auto simp: single_done_def single_file_size_def)
  have sw: "single_header_main k kind ws es (Suc i) = Inr w'"
    using assms by (simp add: single_header_main_Suc)
  have w': "intact w'" "single_done (Suc i) w'"
    using ends_returned [OF ends_single_header_main sw] by simp_all
  have eff: "strategy w' = strategy w
                   \<and> m_length w' = (10 + i * 10) * PAGE_SIZE
                   \<and> content w' =
                       store 0 (memset_pattern8 (of_nat ((10 + i * 10) * PAGE_SIZE)) PAGE_SIZE)
                         (body_content (10 + i * 10)
                            (resize ((10 + i * 10) * PAGE_SIZE) (content w)) [1..<10 + i * 10])
                   \<and> calls w' =
                       calls w @ extend_calls w ((10 + i * 10) * PAGE_SIZE)
                       @ barrier_calls w' es
                       @ body_calls w' (10 + i * 10) [1..<10 + i * 10]
                       @ barrier_calls w' ws
                       @ [write_call w' 0
                            (memset_pattern8 (of_nat ((10 + i * 10) * PAGE_SIZE)) PAGE_SIZE)]
                       @ barrier_calls w' ws"
    using ends_returned(2) [OF ends_transaction [OF w(1) le, of k es ws] assms(2)] .
  have comm: "10 + i * 10 = 10 + 10 * i" by simp
  show "m_length w' = (10 + 10 * i) * PAGE_SIZE"
    using eff by (simp add: mult.commute)
  then show "length (content w') = (10 + 10 * i) * PAGE_SIZE"
    using w'(1) by (simp add: intact_def)
  show "calls w' =
           calls w @ extend_calls w ((10 + 10 * i) * PAGE_SIZE)
           @ barrier_calls w' es
           @ body_calls w' (10 + 10 * i) [1..<10 + 10 * i]
           @ barrier_calls w' ws
           @ [write_call w' 0 (memset_pattern8 (of_nat ((10 + 10 * i) * PAGE_SIZE)) PAGE_SIZE)]
           @ barrier_calls w' ws"
    using eff unfolding comm by blast
  show "single_ok (content w') (10 + 10 * i)"
    using w'(2) by (simp add: single_done_def mult.commute)
qed

text \<open>
  C5, as the code has it. Transaction \<open>i\<close> of the single-header policy, run on the
  writer left by the transactions before it, makes these calls in this order: the
  extension to exactly \<open>10 + 10 * i\<close> pages, the extend-barrier list, the writes of
  the tiled \<open>j\<close> at byte \<open>(page_count - j) * PAGE_SIZE\<close> for \<open>j\<close> from 1 to
  \<open>page_count - 1\<close>, the write-barrier list, the write at byte 0 of the tiled file
  size in bytes (\<open>page_count * PAGE_SIZE\<close>, not the page count), and the write-barrier
  list again. Afterwards the file has that size, page 0 is the tiled size and each body
  page its tiled counter.
\<close>

theorem single_header_transaction_steps:
  assumes "single_header_main k kind ws es i = Inr w" and "transaction k ws es i w = Inr w'"
  shows "m_length w' = (10 + 10 * i) * PAGE_SIZE
       \<and> length (content w') = (10 + 10 * i) * PAGE_SIZE
       \<and> calls w' =
           calls w @ extend_calls w ((10 + 10 * i) * PAGE_SIZE)
           @ barrier_calls w' es
           @ body_calls w' (10 + 10 * i) [1..<10 + 10 * i]
           @ barrier_calls w' ws
           @ [write_call w' 0 (memset_pattern8 (of_nat ((10 + 10 * i) * PAGE_SIZE)) PAGE_SIZE)]
           @ barrier_calls w' ws
       \<and> take PAGE_SIZE (content w')
           = memset_pattern8 (of_nat ((10 + 10 * i) * PAGE_SIZE)) PAGE_SIZE
       \<and> (\<forall>j. 1 \<le> j \<and> j < 10 + 10 * i \<longrightarrow>
             take PAGE_SIZE (drop ((10 + 10 * i - j) * PAGE_SIZE) (content w'))
               = memset_pattern8 (of_nat j) PAGE_SIZE)"
  using transaction_effect [OF assms] by (simp add: single_ok_def)

lemma first_transaction_runs:
  assumes "\<And>h c. k h c"
  shows "\<exists>w w'. single_header_main k kind ws es 0 = Inr w
              \<and> transaction k ws es 0 w = Inr w'
              \<and> single_header_main k kind ws es 1 = Inr w'"
proof -
  obtain w' where w': "single_header_main k kind ws es (Suc 0) = Inr w'"
    using ends_total [OF ends_single_header_main [of k] assms] by blast
  then obtain w where "single_header_main k kind ws es 0 = Inr w" "transaction k ws es 0 w = Inr w'"
    unfolding single_header_main_Suc by (auto simp: and_then_eq_Inr)
  with w' show ?thesis by auto
qed

text \<open>
  Against C5 as stated: after the first transaction page 0 is the tiled 40960, the size
  of the ten pages in bytes, and not the tiled page count 10.
\<close>

theorem header_pattern_is_size_in_bytes:
  "\<exists>w w'. single_header_main willing PWriteWrite [] [] 0 = Inr w
         \<and> transaction willing [] [] 0 w = Inr w'
         \<and> length (content w') = 10 * PAGE_SIZE
         \<and> take PAGE_SIZE (content w') = memset_pattern8 40960 PAGE_SIZE
         \<and> take PAGE_SIZE (content w') \<noteq> memset_pattern8 10 PAGE_SIZE"
proof -
  obtain w w' where r: "single_header_main willing PWriteWrite [] [] 0 = Inr w"
      "transaction willing [] [] 0 w = Inr w'"
    using first_transaction_runs [of willing PWriteWrite "[]" "[]"]
    by (auto simp: willing_def)
  have ok: "single_ok (content w') (10 + 10 * 0)"
    using r by (rule transaction_effect(4))
  then have pg: "take PAGE_SIZE (content w') = memset_pattern8 40960 PAGE_SIZE"
    and len: "length (content w') = 10 * PAGE_SIZE"
    by (simp_all add: single_ok_def PAGE_SIZE_def)
  have "memset_pattern8 40960 PAGE_SIZE \<noteq> memset_pattern8 10 PAGE_SIZE"
    using memset_pattern8_inj [of 40960 10] by auto
  with r pg len show ?thesis by auto
qed

theorem single_header_transaction_steps_witness:
  "\<exists>w w'. single_header_main willing MMapWrite [MSync, FullFSync] [FullFSync] 0 = Inr w
         \<and> transaction willing [MSync, FullFSync] [FullFSync] 0 w = Inr w'
         \<and> m_length w' = 10 * PAGE_SIZE
         \<and> take PAGE_SIZE (content w') = memset_pattern8 40960 PAGE_SIZE"
proof -
  obtain w w' where r: "single_header_main willing MMapWrite [MSync, FullFSync] [FullFSync] 0 = Inr w"
      "transaction willing [MSync, FullFSync] [FullFSync] 0 w = Inr w'"
    using first_transaction_runs [of willing MMapWrite "[MSync, FullFSync]" "[FullFSync]"]
    by (auto simp: willing_def)
  have "m_length w' = 10 * PAGE_SIZE
      \<and> take PAGE_SIZE (content w') = memset_pattern8 40960 PAGE_SIZE"
    using single_header_transaction_steps [OF r] by (simp add: PAGE_SIZE_def)
  with r show ?thesis by blast
qed

section \<open>Writer and verifier together\<close>

lemma verify_slots_all_consistent:
  "(\<And>i. i \<in> set slots \<Longrightarrow> check_slot base fs i = Some Consistent)
   \<Longrightarrow> verify_slots base fs slots s = Some s"
  by (induction slots arbitrary: s) (simp_all add: slot_success_def)

lemma decode_header_bytes:
  assumes "peek base (i * 32) 32 = Some (header_bytes b idx ver)"
  shows "read_header_entry base i
           = Some \<lparr>offset = of_nat b, index = of_nat idx, version = of_nat ver, marker = - 1\<rparr>"
  using assms by (simp add: read_header_entry_def header_bytes_def)

lemma slot_ok_consistent:
  assumes "slot_ok c b idx ver" "idx < 16"
    and "b + idx * PAGE_SIZE + PAGE_SIZE \<le> length c" "length c < 2 ^ 64"
  shows "check_slot (mmap_view c) (of_nat (length c)) idx = Some Consistent"
proof -
  let ?h = "\<lparr>offset = of_nat b, index = of_nat idx, version = of_nat ver, marker = - 1 :: size_t\<rparr>"
  have "idx * 32 + 32 \<le> length c"
    using assms(2,3) by (simp add: PAGE_SIZE_def)
  then have "peek (mmap_view c) (idx * 32) 32 = Some (take 32 (drop (idx * 32) c))"
    by (rule peek_mmap_view_inside)
  then have hdr: "read_header_entry (mmap_view c) idx = Some ?h"
    using assms(1) by (intro decode_header_bytes) (simp add: slot_ok_def)
  have eq: "byte_offset_of ?h = of_nat (b + idx * PAGE_SIZE)"
    by (simp add: byte_offset_of_def)
  have "b + idx * PAGE_SIZE < 2 ^ 64"
    using assms(3,4) by linarith
  then have bo: "unat (byte_offset_of ?h) = b + idx * PAGE_SIZE"
    unfolding eq by (rule unat_of_nat_size)
  have page: "data_page c ?h = memset_pattern16 (index ?h, version ?h) PAGE_SIZE"
    using assms(1) by (simp add: data_page_def bo slot_ok_def)
  have "unat (byte_offset_of ?h) + PAGE_SIZE \<le> length c"
    using assms(3) by (simp add: bo)
  then show ?thesis
    using check_slot_marked [OF hdr _ _ assms(4)] page by simp
qed

lemma multi_done_verifies:
  assumes "multi_done n w" "intact w" "1 \<le> n" "n \<le> 1024"
  shows "\<forall>i<16. check_slot (mmap_view (content w)) (of_nat (length (content w))) i
                   = Some Consistent"
    and "verdict (content w) = Some True"
proof -
  have len: "length (content w) = (16 * n + 1) * PAGE_SIZE"
    using assms(1-3) by (simp add: multi_done_def multi_file_size_def intact_def)
  have small: "length (content w) < 2 ^ 64"
    using assms(4) by (simp add: len PAGE_SIZE_def)
  have slot: "check_slot (mmap_view (content w)) (of_nat (length (content w))) idx = Some Consistent"
    if "idx < 16" for idx
  proof -
    have ok: "slot_ok (content w) ((16 * (n - 1) + 1) * PAGE_SIZE) idx 7"
      using assms(1,3) that by (simp add: multi_done_def)
    have "(16 * (n - 1) + 1) * PAGE_SIZE + idx * PAGE_SIZE + PAGE_SIZE \<le> length (content w)"
      using assms(3) that by (simp add: len PAGE_SIZE_def)
    with ok that show ?thesis
      using small by (rule slot_ok_consistent)
  qed
  then show "\<forall>i<16. check_slot (mmap_view (content w)) (of_nat (length (content w))) i
                   = Some Consistent"
    by blast
  show "verdict (content w) = Some True"
    unfolding verdict_def by (rule verify_slots_all_consistent) (simp add: slot)
qed

lemma verify_body_all_match:
  assumes "unat pc * PAGE_SIZE \<le> length base" "unat pc * PAGE_SIZE < 2 ^ 64" "i < pc"
    and "\<And>j. 0 < j \<Longrightarrow> j \<le> i \<Longrightarrow>
           take PAGE_SIZE (drop ((unat pc - unat j) * PAGE_SIZE) base) = memset_pattern8 j PAGE_SIZE"
  shows "verify_body base pc i s = Some s"
  using assms(3,4)
proof (induction "unat i" arbitrary: i)
  case 0
  then have "i = 0" by (simp add: unat_eq_0)
  then show ?case by (simp add: verify_body.simps)
next
  case (Suc n)
  then have pos: "0 < i" by (simp add: word_gt_0 unat_gt_0 [symmetric])
  have i1: "unat (i - 1) = n"
    using Suc.hyps(2) pos by (simp add: unat_minus_one word_gt_0)
  have lt1: "i - 1 < pc"
    using Suc.prems(1) i1 Suc.hyps(2) by (simp add: word_less_nat_alt)
  have le1: "j \<le> i" if "j \<le> i - 1" for j
    using that i1 Suc.hyps(2) by (simp add: word_le_nat_alt)
  have sub: "unat (pc - i) = unat pc - unat i"
    using Suc.prems(1) by (simp add: unat_sub)
  have ilt: "unat i < unat pc" "0 < unat i"
    using Suc.prems(1) pos by (simp_all add: word_less_nat_alt)
  have le: "(unat pc - unat i) * PAGE_SIZE + PAGE_SIZE \<le> unat pc * PAGE_SIZE"
    using ilt by (intro page_fits) simp
  have "unat (pc - i) * unat (of_nat PAGE_SIZE :: size_t) < 2 ^ 64"
    using le assms(2) by (simp add: sub PAGE_SIZE_def)
  then have "unat ((pc - i) * of_nat PAGE_SIZE) = unat (pc - i) * unat (of_nat PAGE_SIZE :: size_t)"
    using unat_mult_lem [of "pc - i" "of_nat PAGE_SIZE :: size_t"] by simp
  then have bo: "unat ((pc - i) * of_nat PAGE_SIZE) = (unat pc - unat i) * PAGE_SIZE"
    by (simp add: sub PAGE_SIZE_def)
  have "(unat pc - unat i) * PAGE_SIZE + PAGE_SIZE \<le> length base"
    using le assms(1) by linarith
  then have pg: "peek base (unat ((pc - i) * of_nat PAGE_SIZE)) PAGE_SIZE
                  = Some (memset_pattern8 i PAGE_SIZE)"
    using Suc.prems(2) [OF pos] by (simp add: peek_def bo)
  have "verify_body base pc (i - 1) s = Some s"
    using Suc.hyps(1) [OF i1 [symmetric] lt1] Suc.prems(2) le1 by blast
  then show ?case
    using pos pg by (subst verify_body.simps) (simp add: Let_def)
qed

lemma single_done_verifies:
  assumes "single_done n w" "intact w" "1 \<le> n" "n \<le> 1024"
  shows "check_header (mmap_view (content w)) (of_nat (length (content w))) = Some HeaderMatches"
    and "verify_body (mmap_view (content w)) (claimed_size (content w) div of_nat PAGE_SIZE)
           (claimed_size (content w) div of_nat PAGE_SIZE - 1) True = Some True"
    and "content w \<noteq> []"
proof -
  define c where "c = content w"
  define PC where "PC = 10 + (n - 1) * 10"
  have ok: "single_ok c PC"
    using assms(1,3) by (simp add: single_done_def c_def PC_def)
  have len: "length c = PC * PAGE_SIZE"
    using ok by (simp add: single_ok_def)
  have PC: "10 \<le> PC" "PC \<le> 10240"
    using assms(3,4) by (simp_all add: PC_def)
  have small: "PC * PAGE_SIZE < 2 ^ 64"
    using PC by (simp add: PAGE_SIZE_def)
  show ne: "content w \<noteq> []"
    using len PC unfolding c_def [symmetric] by (auto simp: PAGE_SIZE_def)
  have view: "mmap_view c = c"
    by (rule mmap_view_aligned) (simp add: len)
  have page0: "take PAGE_SIZE (mmap_view c) = memset_pattern8 (of_nat (length c)) PAGE_SIZE"
    using ok by (simp add: view single_ok_def len)
  show "check_header (mmap_view (content w)) (of_nat (length (content w))) = Some HeaderMatches"
    unfolding c_def [symmetric] using ne page0 by (simp add: check_header_mapped c_def)
  have cs: "claimed_size c = of_nat (PC * PAGE_SIZE)"
    using claimed_size_of_matching_header [OF page0] by (simp add: len)
  have ucs: "unat (claimed_size c) = PC * PAGE_SIZE"
    unfolding cs using small by (rule unat_of_nat_size)
  define pc where "pc = claimed_size c div of_nat PAGE_SIZE"
  have "unat pc = unat (claimed_size c) div unat (of_nat PAGE_SIZE :: size_t)"
    unfolding pc_def by (rule unat_div)
  then have upc: "unat pc = PC"
    by (simp add: ucs unat_PAGE_SIZE) (simp add: PAGE_SIZE_def)
  have "pc \<noteq> 0" using upc PC by auto
  then have lt: "pc - 1 < pc"
    by (simp add: word_less_nat_alt unat_minus_one unat_gt_0)
  have pages: "take PAGE_SIZE (drop ((unat pc - unat j) * PAGE_SIZE) (mmap_view c))
                 = memset_pattern8 j PAGE_SIZE"
    if j: "0 < j" "j \<le> pc - 1" for j
  proof -
    have "1 \<le> unat j" using j(1) by (simp add: word_less_nat_alt Suc_le_eq)
    moreover have "unat j < PC"
      using j(2) lt upc by (simp add: word_le_nat_alt word_less_nat_alt)
    ultimately have "take PAGE_SIZE (drop ((PC - unat j) * PAGE_SIZE) c)
                       = memset_pattern8 (of_nat (unat j)) PAGE_SIZE"
      using ok by (simp add: single_ok_def)
    then show ?thesis by (simp add: view upc)
  qed
  have "verify_body (mmap_view c) pc (pc - 1) True = Some True"
  proof (rule verify_body_all_match)
    show "unat pc * PAGE_SIZE \<le> length (mmap_view c)" by (simp add: view upc len)
    show "unat pc * PAGE_SIZE < 2 ^ 64" using small by (simp add: upc)
    show "pc - 1 < pc" by (rule lt)
  qed (rule pages)
  then show "verify_body (mmap_view (content w)) (claimed_size (content w) div of_nat PAGE_SIZE)
           (claimed_size (content w) div of_nat PAGE_SIZE - 1) True = Some True"
    by (simp add: pc_def c_def)
qed

text \<open>
  C1. For either write path, any two barrier lists and any kernel: a run of the multi-slot
  simulator that completes \<open>n\<close> growth steps (\<open>1 \<le> n \<le> 1024\<close>; the program runs 1024)
  leaves a file in which each of the sixteen header entries carries the sentinel with
  version 7 and its data page is the tiled \<open>{index, 7}\<close>, so the multi-slot verifier
  classifies every slot consistent and ends with \<open>success\<close> set. A run of the
  single-header simulator that completes \<open>n\<close> transactions leaves a file whose header
  page matches and whose body loop ends with \<open>success\<close> set.
\<close>

theorem clean_run_verifies:
  assumes "1 \<le> n" and "n \<le> 1024"
  shows "(multi_slot_main k kind ws es n = Inr w \<longrightarrow>
            (\<forall>idx<16. slot_ok (content w) ((16 * (n - 1) + 1) * PAGE_SIZE) idx 7)
          \<and> (\<forall>i<16. check_slot (mmap_view (content w)) (of_nat (length (content w))) i
                        = Some Consistent)
          \<and> verdict (content w) = Some True)
       \<and> (single_header_main k kind ws es n = Inr v \<longrightarrow>
            content v \<noteq> []
          \<and> check_header (mmap_view (content v)) (of_nat (length (content v)))
               = Some HeaderMatches
          \<and> verify_body (mmap_view (content v)) (claimed_size (content v) div of_nat PAGE_SIZE)
               (claimed_size (content v) div of_nat PAGE_SIZE - 1) True = Some True)"
proof (intro conjI impI)
  assume r: "multi_slot_main k kind ws es n = Inr w"
  have w: "intact w" "multi_done n w"
    using ends_returned [OF ends_multi_slot_main r] by simp_all
  show "\<forall>idx<16. slot_ok (content w) ((16 * (n - 1) + 1) * PAGE_SIZE) idx 7"
    using w(2) assms(1) by (simp add: multi_done_def)
  show "\<forall>i<16. check_slot (mmap_view (content w)) (of_nat (length (content w))) i
                 = Some Consistent"
    using w(2,1) assms by (rule multi_done_verifies(1))
  show "verdict (content w) = Some True"
    using w(2,1) assms by (rule multi_done_verifies(2))
next
  assume r: "single_header_main k kind ws es n = Inr v"
  have v: "intact v" "single_done n v"
    using ends_returned [OF ends_single_header_main r] by simp_all
  show "content v \<noteq> []"
    using v(2,1) assms by (rule single_done_verifies(3))
  show "check_header (mmap_view (content v)) (of_nat (length (content v))) = Some HeaderMatches"
    using v(2,1) assms by (rule single_done_verifies(1))
  show "verify_body (mmap_view (content v)) (claimed_size (content v) div of_nat PAGE_SIZE)
          (claimed_size (content v) div of_nat PAGE_SIZE - 1) True = Some True"
    using v(2,1) assms by (rule single_done_verifies(2))
qed

theorem clean_run_verifies_witness:
  "\<exists>w v. multi_slot_main willing MMapWrite [MSync, FullFSync] [FullFSync] 1024 = Inr w
        \<and> verdict (content w) = Some True
        \<and> check_slot (mmap_view (content w)) (of_nat (length (content w))) 15 = Some Consistent
        \<and> single_header_main willing PWriteWrite [FSync] [NoopSync] 1024 = Inr v
        \<and> check_header (mmap_view (content v)) (of_nat (length (content v)))
             = Some HeaderMatches
        \<and> verify_body (mmap_view (content v)) (claimed_size (content v) div of_nat PAGE_SIZE)
             (claimed_size (content v) div of_nat PAGE_SIZE - 1) True = Some True"
proof -
  have k: "\<And>h c. willing h c" by (simp add: willing_def)
  obtain w where w: "multi_slot_main willing MMapWrite [MSync, FullFSync] [FullFSync] 1024 = Inr w"
    using ends_total [OF ends_multi_slot_main [of willing] k] by blast
  obtain v where v: "single_header_main willing PWriteWrite [FSync] [NoopSync] 1024 = Inr v"
    using ends_total [OF ends_single_header_main [of willing] k] by blast
  have "(1::nat) \<le> 1024" "(1024::nat) \<le> 1024" by simp_all
  then show ?thesis
    using clean_run_verifies [of 1024 willing MMapWrite "[MSync, FullFSync]" "[FullFSync]" w]
          clean_run_verifies [of 1024 willing PWriteWrite "[FSync]" "[NoopSync]" _ v]
          w v
    by auto
qed

end
